theory Spec2Isabelle
  imports Main "HOL-Library.Sublist"
begin

section \<open>Python values and text\<close>

text \<open>
  The values that travel through the queue are what \<^verbatim>\<open>json.loads\<close> produces and
  \<^verbatim>\<open>json.dumps\<close> accepts: \<^verbatim>\<open>None\<close>, booleans, integers, strings, lists and
  dictionaries with string keys. A dictionary keeps its insertion order, so it is an
  association list. Floating-point numbers are left out of the model, and a string holds
  code points below 256.
\<close>

datatype pyval =
    PyNone
  | PyBool bool
  | PyInt int
  | PyStr string
  | PyList "pyval list"
  | PyDict "(string \<times> pyval) list"

datatype exn = Empty | RuntimeError | TypeError | KeyError | ValueError

datatype 'a outcome = Return 'a | Raise exn

abbreviation LF :: char where "LF \<equiv> CHR 0x0A"
abbreviation CR :: char where "CR \<equiv> CHR 0x0D"

text \<open>
  \<^verbatim>\<open>str.strip()\<close> removes leading and trailing whitespace. Among the code points
  below 256, Python's whitespace is 0x09-0x0D, 0x1C-0x20, 0x85 and 0xA0.
\<close>

definition is_space :: "char \<Rightarrow> bool" where
  "is_space c =
     (let n = (of_char c :: nat)
      in (9 \<le> n \<and> n \<le> 13) \<or> (28 \<le> n \<and> n \<le> 32) \<or> n = 133 \<or> n = 160)"

definition strip :: "string \<Rightarrow> string" where
  "strip s = rev (dropWhile is_space (rev (dropWhile is_space s)))"

section \<open>The queue file\<close>

text \<open>
  \<^verbatim>\<open>QUEUE_FILE\<close> is the one file all operations share. Its state is its decoded text,
  or \<open>None\<close> when the file does not exist, and a flag \<open>denied\<close> for the I/O error
  branch: while it is set, every \<^verbatim>\<open>open()\<close> of the file raises \<^verbatim>\<open>OSError\<close>.
  The module imports \<^verbatim>\<open>fcntl\<close>, so it only loads on POSIX systems, where text mode
  writes \<open>LF\<close> as it is. Access is serialized (one operation at a time), so
  \<^verbatim>\<open>_acquire_file_lock\<close> and \<^verbatim>\<open>_release_file_lock\<close> leave the state as it is.
\<close>

record filesys =
  content :: "string option"
  denied :: bool

text \<open>
  Reading in text mode with the default \<^verbatim>\<open>newline=None\<close> turns \<open>CR LF\<close> and a lone
  \<open>CR\<close> into \<open>LF\<close>; then a line runs up to and including the next \<open>LF\<close>.
\<close>

fun universal_newlines :: "string \<Rightarrow> string" where
  "universal_newlines [] = []"
| "universal_newlines [c] = [if c = CR then LF else c]"
| "universal_newlines (c # d # ds) =
     (if c = CR \<and> d = LF then LF # universal_newlines ds
      else (if c = CR then LF else c) # universal_newlines (d # ds))"

fun readline :: "string \<Rightarrow> string \<times> string" where
  "readline [] = ([], [])"
| "readline (c # cs) =
     (if c = LF then ([c], cs)
      else (case readline cs of (l, rest) \<Rightarrow> (c # l, rest)))"

function text_lines :: "string \<Rightarrow> string list" where
  "text_lines [] = []"
| "text_lines (c # cs) = (case readline (c # cs) of (l, rest) \<Rightarrow> l # text_lines rest)"
  by pat_completeness auto
termination
proof (relation "measure length")
  have shorter: "readline (c # cs) = (l, rest) \<Longrightarrow> length rest < Suc (length cs)"
    for c cs l rest
  proof (induction cs arbitrary: c l rest)
    case Nil
    then show ?case by (auto split: if_splits)
  next
    case (Cons d ds)
    show ?case
    proof (cases "c = LF")
      case True
      with Cons.prems show ?thesis by auto
    next
      case False
      obtain l' rest' where r: "readline (d # ds) = (l', rest')" by (cases "readline (d # ds)")
      with Cons.prems False have "rest = rest'" by simp
      with Cons.IH [OF r] show ?thesis by simp
    qed
  qed
  show "wf (measure length)" by simp
  show "(rest, c # cs) \<in> measure length" if "(l, rest) = readline (c # cs)" for c cs l rest
    using shorter [OF that [symmetric]] by simp
qed

definition readlines :: "string \<Rightarrow> string list" where
  "readlines txt = text_lines (universal_newlines txt)"

text \<open>
  \<^verbatim>\<open>json.dumps\<close> and \<^verbatim>\<open>json.loads\<close> belong to Python's standard library. The
  operations take them as a parameter, so that what is proved holds for whatever they
  compute. \<^verbatim>\<open>json.loads\<close> returns a value, raises \<^verbatim>\<open>JSONDecodeError\<close>, or raises
  something else (\<^verbatim>\<open>RecursionError\<close> on pathological nesting); the code treats the
  three differently.
\<close>

datatype loads_result = Parsed pyval | JSONDecodeError | OtherException

record codec =
  dumps :: "pyval \<Rightarrow> string"
  loads :: "string \<Rightarrow> loads_result"

text \<open>\<^verbatim>\<open>_append_to_file\<close>: any exception becomes \<^verbatim>\<open>RuntimeError\<close>.\<close>

definition append_to_file :: "codec \<Rightarrow> pyval \<Rightarrow> filesys \<Rightarrow> exn + filesys" where
  "append_to_file c event_data fs =
     (if denied fs then Inl RuntimeError
      else Inr (fs\<lparr>content :=
             Some ((case content fs of None \<Rightarrow> [] | Some txt \<Rightarrow> txt)
                   @ dumps c event_data @ [LF])\<rparr>))"

text \<open>
  The handler of \<^verbatim>\<open>JSONDecodeError\<close> in \<^verbatim>\<open>_read_from_file\<close>: the file is opened
  and read again, and written back without its first line.
\<close>

definition drop_first_line :: "filesys \<Rightarrow> filesys" where
  "drop_first_line fs =
     (case content fs of
        None \<Rightarrow> fs
      | Some txt \<Rightarrow>
          if denied fs then fs
          else (let lines = readlines txt
                in if lines \<noteq> [] then fs\<lparr>content := Some (concat (tl lines))\<rparr> else fs))"

text \<open>
  \<^verbatim>\<open>_read_from_file\<close> returns the event, or \<^verbatim>\<open>None\<close> (here \<open>PyNone\<close>), and the
  file as it leaves it.
\<close>

definition read_from_file :: "codec \<Rightarrow> filesys \<Rightarrow> pyval \<times> filesys" where
  "read_from_file c fs =
     (case content fs of
        None \<Rightarrow> (PyNone, fs)
      | Some txt \<Rightarrow>
          if denied fs then (PyNone, fs)
          else (let lines = readlines txt
                in if lines = [] then (PyNone, fs)
                   else (let first_line = strip (hd lines)
                         in if first_line = [] then (PyNone, fs)
                            else (case loads c first_line of
                                    Parsed event \<Rightarrow>
                                      (event, fs\<lparr>content := Some (concat (tl lines))\<rparr>)
                                  | JSONDecodeError \<Rightarrow> (PyNone, drop_first_line fs)
                                  | OtherException \<Rightarrow> (PyNone, fs)))))"

text \<open>\<^verbatim>\<open>_count_file_lines\<close>.\<close>

definition count_file_lines :: "filesys \<Rightarrow> nat" where
  "count_file_lines fs =
     (case content fs of
        None \<Rightarrow> 0
      | Some txt \<Rightarrow>
          if denied fs then 0
          else length (filter (\<lambda>line. strip line \<noteq> []) (readlines txt)))"

section \<open>The class SharedQueue\<close>

text \<open>
  An object holds the flag and, on the producer side, the in-memory
  \<^verbatim>\<open>queue.Queue()\<close>, which is unbounded: its \<^verbatim>\<open>put\<close> always succeeds at once,
  whatever \<^verbatim>\<open>block\<close> and \<^verbatim>\<open>timeout\<close> are. On the consumer side the attribute
  does not exist; the model leaves the list empty there.
\<close>

record shared_queue =
  use_file_directly :: bool
  in_memory_queue :: "pyval list"

text \<open>
  The loop of \<^verbatim>\<open>_load_from_file\<close>: a blank line and a line that raises
  \<^verbatim>\<open>JSONDecodeError\<close> are passed over; any other exception leaves the loop and is
  swallowed by the outer handler.
\<close>

fun load_lines :: "codec \<Rightarrow> pyval list \<Rightarrow> string list \<Rightarrow> pyval list" where
  "load_lines c q [] = q"
| "load_lines c q (l # ls) =
     (let line = strip l
      in if line \<noteq> [] then
           (case loads c line of
              Parsed event \<Rightarrow> load_lines c (q @ [event]) ls
            | JSONDecodeError \<Rightarrow> load_lines c q ls
            | OtherException \<Rightarrow> q)
         else load_lines c q ls)"

definition load_from_file :: "codec \<Rightarrow> shared_queue \<Rightarrow> filesys \<Rightarrow> shared_queue" where
  "load_from_file c self fs =
     (case content fs of
        None \<Rightarrow> self
      | Some txt \<Rightarrow>
          if denied fs then self
          else self\<lparr>in_memory_queue := load_lines c (in_memory_queue self) (readlines txt)\<rparr>)"

text \<open>\<^verbatim>\<open>SharedQueue.__init__\<close>.\<close>

definition init :: "codec \<Rightarrow> bool \<Rightarrow> filesys \<Rightarrow> shared_queue" where
  "init c ufd fs =
     (let self = \<lparr>use_file_directly = ufd, in_memory_queue = []\<rparr>
      in if \<not> ufd then load_from_file c self fs else self)"

text \<open>\<^verbatim>\<open>SharedQueue.put\<close>: the result, the object and the file afterwards.\<close>

definition put ::
  "codec \<Rightarrow> pyval \<Rightarrow> shared_queue \<times> filesys \<Rightarrow> unit outcome \<times> shared_queue \<times> filesys" where
  "put c item st =
     (case st of (self, fs) \<Rightarrow>
        if use_file_directly self then
          (case append_to_file c item fs of
             Inl e \<Rightarrow> (Raise e, self, fs)
           | Inr fs' \<Rightarrow> (Return (), self, fs'))
        else
          (let self' = self\<lparr>in_memory_queue := in_memory_queue self @ [item]\<rparr>
           in case append_to_file c item fs of
                Inl e \<Rightarrow> (Raise e, self', fs)
              | Inr fs' \<Rightarrow> (Return (), self', fs')))"

text \<open>
  \<^verbatim>\<open>queue.Queue.get\<close> of the standard library, for one thread: on an empty queue
  with \<^verbatim>\<open>block\<close> and no timeout it never returns, which is the result \<open>None\<close>.
  Times are integers, in milliseconds.
\<close>

definition queue_get ::
  "bool \<Rightarrow> int option \<Rightarrow> pyval list \<Rightarrow> (pyval outcome \<times> pyval list) option" where
  "queue_get block timeout q =
     (if \<not> block then
        (case q of [] \<Rightarrow> Some (Raise Empty, q) | x # xs \<Rightarrow> Some (Return x, xs))
      else
        (case timeout of
           None \<Rightarrow> (case q of [] \<Rightarrow> None | x # xs \<Rightarrow> Some (Return x, xs))
         | Some t \<Rightarrow>
             if t < 0 then Some (Raise ValueError, q)
             else (case q of [] \<Rightarrow> Some (Raise Empty, q) | x # xs \<Rightarrow> Some (Return x, xs))))"

text \<open>
  The \<^verbatim>\<open>while True\<close> loop of \<^verbatim>\<open>SharedQueue.get\<close> on the consumer side, over the
  file and the clock. \<^verbatim>\<open>time.sleep(0.1)\<close> moves the clock by 100 milliseconds, and
  nothing else moves it. The first argument bounds the number of rounds; \<open>None\<close> says
  the loop is still running after that many.
\<close>

fun poll ::
  "codec \<Rightarrow> nat \<Rightarrow> bool \<Rightarrow> int option \<Rightarrow> int \<Rightarrow> filesys \<times> int \<Rightarrow>
   (pyval outcome \<times> filesys \<times> int) option" where
  "poll c 0 block timeout start_time st = None"
| "poll c (Suc n) block timeout start_time st =
     (case st of (fs, clock) \<Rightarrow>
        (case read_from_file c fs of (event, fs') \<Rightarrow>
           if event \<noteq> PyNone then Some (Return event, fs', clock)
           else if \<not> block then Some (Raise Empty, fs', clock)
           else if (case timeout of None \<Rightarrow> False | Some t \<Rightarrow> clock - start_time \<ge> t)
             then Some (Raise Empty, fs', clock)
           else poll c n block timeout start_time (fs', clock + 100)))"

definition get ::
  "codec \<Rightarrow> nat \<Rightarrow> bool \<Rightarrow> int option \<Rightarrow> shared_queue \<times> filesys \<times> int \<Rightarrow>
   (pyval outcome \<times> shared_queue \<times> filesys \<times> int) option" where
  "get c rounds block timeout st =
     (case st of (self, fs, clock) \<Rightarrow>
        if use_file_directly self then
          map_option (\<lambda>(r, fs', clock'). (r, self, fs', clock'))
            (poll c rounds block timeout clock (fs, clock))
        else
          map_option (\<lambda>(r, q). (r, self\<lparr>in_memory_queue := q\<rparr>, fs, clock))
            (queue_get block timeout (in_memory_queue self)))"

definition qsize :: "shared_queue \<Rightarrow> filesys \<Rightarrow> nat" where
  "qsize self fs =
     (if use_file_directly self then count_file_lines fs else length (in_memory_queue self))"

definition empty :: "shared_queue \<Rightarrow> filesys \<Rightarrow> bool" where
  "empty self fs =
     (if use_file_directly self then count_file_lines fs = 0 else in_memory_queue self = [])"

section \<open>The ingestion endpoint\<close>

text \<open>
  The operators the handler applies to the request body: \<^verbatim>\<open>key in data\<close>,
  \<^verbatim>\<open>data[key]\<close> and \<^verbatim>\<open>data[key] = value\<close>, with the \<^verbatim>\<open>TypeError\<close> of the types
  that do not support them.
\<close>

fun contains_str :: "string \<Rightarrow> string \<Rightarrow> bool" where
  "contains_str sub [] = (sub = [])"
| "contains_str sub (c # cs) = (prefix sub (c # cs) \<or> contains_str sub cs)"

fun py_in :: "string \<Rightarrow> pyval \<Rightarrow> exn + bool" where
  "py_in key (PyDict kvs) = Inr (key \<in> set (map fst kvs))"
| "py_in key (PyList xs) = Inr (PyStr key \<in> set xs)"
| "py_in key (PyStr s) = Inr (contains_str key s)"
| "py_in key _ = Inl TypeError"

fun py_getitem :: "pyval \<Rightarrow> string \<Rightarrow> exn + pyval" where
  "py_getitem (PyDict kvs) key = (case map_of kvs key of None \<Rightarrow> Inl KeyError | Some v \<Rightarrow> Inr v)"
| "py_getitem _ key = Inl TypeError"

fun dict_set :: "(string \<times> pyval) list \<Rightarrow> string \<Rightarrow> pyval \<Rightarrow> (string \<times> pyval) list" where
  "dict_set [] key v = [(key, v)]"
| "dict_set ((k, w) # kvs) key v = (if k = key then (k, v) # kvs else (k, w) # dict_set kvs key v)"

fun py_setitem :: "pyval \<Rightarrow> string \<Rightarrow> pyval \<Rightarrow> exn + pyval" where
  "py_setitem (PyDict kvs) key v = Inr (PyDict (dict_set kvs key v))"
| "py_setitem _ key v = Inl TypeError"

definition nonempty_str :: "pyval \<Rightarrow> bool" where
  "nonempty_str v = (case v of PyStr s \<Rightarrow> strip s \<noteq> [] | _ \<Rightarrow> False)"

text \<open>\<^verbatim>\<open>validate_event\<close>: the pair it returns, or the exception it raises.\<close>

definition validate_event :: "pyval \<Rightarrow> exn + (bool \<times> string)" where
  "validate_event data =
     (case py_in ''site_id'' data of
        Inl e \<Rightarrow> Inl e
      | Inr False \<Rightarrow> Inr (False, ''Missing required field: site_id'')
      | Inr True \<Rightarrow>
          (case py_getitem data ''site_id'' of
             Inl e \<Rightarrow> Inl e
           | Inr site \<Rightarrow>
               if \<not> nonempty_str site then Inr (False, ''site_id must be a non-empty string'')
               else
                 (case py_in ''event_type'' data of
                    Inl e \<Rightarrow> Inl e
                  | Inr False \<Rightarrow> Inr (False, ''Missing required field: event_type'')
                  | Inr True \<Rightarrow>
                      (case py_getitem data ''event_type'' of
                         Inl e \<Rightarrow> Inl e
                       | Inr ty \<Rightarrow>
                           if \<not> nonempty_str ty
                           then Inr (False, ''event_type must be a non-empty string'')
                           else Inr (True, [])))))"

text \<open>
  A request is its \<^verbatim>\<open>is_json\<close> flag and what \<^verbatim>\<open>get_json()\<close> gives: the parsed body,
  or \<open>None\<close> when the body is malformed and \<^verbatim>\<open>get_json()\<close> raises. \<open>now\<close> is
  \<^verbatim>\<open>datetime.utcnow().isoformat()\<close>. \<^verbatim>\<open>receive_event\<close> returns the status code with
  the queue object and the file afterwards. Every exception that can arise
  (\<^verbatim>\<open>BadRequest\<close> from \<^verbatim>\<open>get_json()\<close>, \<^verbatim>\<open>TypeError\<close> and \<^verbatim>\<open>KeyError\<close> from
  the operators, \<^verbatim>\<open>RuntimeError\<close> from \<^verbatim>\<open>put\<close>) reaches the last handler,
  \<^verbatim>\<open>except Exception\<close>, which answers 500.
\<close>

record request =
  is_json :: bool
  get_json :: "pyval option"

definition receive_event ::
  "codec \<Rightarrow> string \<Rightarrow> request \<Rightarrow> shared_queue \<times> filesys \<Rightarrow> nat \<times> shared_queue \<times> filesys" where
  "receive_event c now req st =
     (if \<not> is_json req then (400, st)
      else
        (case get_json req of
           None \<Rightarrow> (500, st)
         | Some event_data \<Rightarrow>
             if event_data = PyNone then (400, st)
             else
               (case validate_event event_data of
                  Inl e \<Rightarrow> (500, st)
                | Inr (is_valid, error_message) \<Rightarrow>
                    if \<not> is_valid then (400, st)
                    else
                      (case py_in ''timestamp'' event_data of
                         Inl e \<Rightarrow> (500, st)
                       | Inr has \<Rightarrow>
                           (case (if \<not> has
                                  then py_setitem event_data ''timestamp'' (PyStr (now @ ''Z''))
                                  else Inr event_data) of
                              Inl e \<Rightarrow> (500, st)
                            | Inr event_data' \<Rightarrow>
                                (case put c event_data' st of
                                   (Return u, st') \<Rightarrow> (200, st')
                                 | (Raise e, st') \<Rightarrow> (500, st')))))))"

section \<open>A JSON codec\<close>

text \<open>
  A concrete codec, to run the operations on concrete records. \<open>json_dumps\<close> writes what
  \<^verbatim>\<open>json.dumps\<close> writes with its default arguments, where that returns a text: the
  separators \<^verbatim>\<open>", "\<close> and \<^verbatim>\<open>": "\<close>, and every character outside the printable ASCII
  range escaped. \<open>json_loads\<close> scans a text the way \<^verbatim>\<open>json.loads\<close> does, with the two
  ways it has of raising.
\<close>

abbreviation DQ :: char where "DQ \<equiv> CHR 0x22"
abbreviation BS :: char where "BS \<equiv> CHR 0x5C"

definition hex_digit :: "nat \<Rightarrow> char" where
  "hex_digit n = ''0123456789abcdef'' ! (n mod 16)"

definition escape_char :: "char \<Rightarrow> string" where
  "escape_char c =
     (if c = DQ then [BS, DQ]
      else if c = BS then [BS, BS]
      else if c = LF then [BS, CHR ''n'']
      else if c = CR then [BS, CHR ''r'']
      else if c = CHR 0x09 then [BS, CHR ''t'']
      else if c = CHR 0x08 then [BS, CHR ''b'']
      else if c = CHR 0x0C then [BS, CHR ''f'']
      else (let n = (of_char c :: nat)
            in if 32 \<le> n \<and> n \<le> 126 then [c]
               else [BS, CHR ''u'', CHR ''0'', CHR ''0'', hex_digit (n div 16), hex_digit n]))"

definition json_string :: "string \<Rightarrow> string" where
  "json_string s = [DQ] @ concat (map escape_char s) @ [DQ]"

fun show_nat :: "nat \<Rightarrow> string" where
  "show_nat n =
     (if n < 10 then [char_of (48 + n)] else show_nat (n div 10) @ [char_of (48 + n mod 10)])"

declare show_nat.simps [simp del]

definition show_int :: "int \<Rightarrow> string" where
  "show_int i = (if i < 0 then CHR ''-'' # show_nat (nat (- i)) else show_nat (nat i))"

fun json_dumps :: "pyval \<Rightarrow> string"
  and dumps_items :: "pyval list \<Rightarrow> string"
  and dumps_members :: "(string \<times> pyval) list \<Rightarrow> string" where
  "json_dumps PyNone = ''null''"
| "json_dumps (PyBool b) = (if b then ''true'' else ''false'')"
| "json_dumps (PyInt i) = show_int i"
| "json_dumps (PyStr s) = json_string s"
| "json_dumps (PyList xs) = ''['' @ dumps_items xs @ '']''"
| "json_dumps (PyDict kvs) = ''{'' @ dumps_members kvs @ ''}''"
| "dumps_items [] = []"
| "dumps_items [x] = json_dumps x"
| "dumps_items (x # y # ys) = json_dumps x @ '', '' @ dumps_items (y # ys)"
| "dumps_members [] = []"
| "dumps_members [(k, v)] = json_string k @ '': '' @ json_dumps v"
| "dumps_members ((k, v) # kv # kvs) =
     json_string k @ '': '' @ json_dumps v @ '', '' @ dumps_members (kv # kvs)"

definition json_ws :: "char \<Rightarrow> bool" where
  "json_ws c = (c = CHR '' '' \<or> c = CHR 0x09 \<or> c = LF \<or> c = CR)"

definition skip_ws :: "string \<Rightarrow> string" where
  "skip_ws s = dropWhile json_ws s"

text \<open>
  The scanner of \<^verbatim>\<open>json.loads\<close> comes back with a value and the rest of the text, or
  raises \<^verbatim>\<open>JSONDecodeError\<close> (\<open>NoParse\<close>), or raises something else (\<open>Overflow\<close>):
  \<^verbatim>\<open>RecursionError\<close> when containers are nested deeper than the interpreter allows,
  \<^verbatim>\<open>ValueError\<close> when an integer has more digits than \<^verbatim>\<open>int\<close> converts. Both bounds
  belong to the interpreter and are parameters here. A value is \<open>None\<close> when it is, or
  holds, a float or a string with a code point above 255: such a text is scanned to its
  end, but \<open>pyval\<close> has no value for it.
\<close>

datatype 'a scan = Scanned 'a string | NoParse | Overflow

definition scan_map :: "('a \<Rightarrow> 'b) \<Rightarrow> 'a scan \<Rightarrow> 'b scan" where
  "scan_map f r =
     (case r of Scanned x rest \<Rightarrow> Scanned (f x) rest | NoParse \<Rightarrow> NoParse | Overflow \<Rightarrow> Overflow)"

definition cons_opt :: "'a option \<Rightarrow> 'a list option \<Rightarrow> 'a list option" where
  "cons_opt x xs =
     (case x of None \<Rightarrow> None | Some y \<Rightarrow> (case xs of None \<Rightarrow> None | Some ys \<Rightarrow> Some (y # ys)))"

definition pair_opt :: "'a option \<Rightarrow> 'b option \<Rightarrow> ('a \<times> 'b) option" where
  "pair_opt x y =
     (case x of None \<Rightarrow> None | Some a \<Rightarrow> (case y of None \<Rightarrow> None | Some b \<Rightarrow> Some (a, b)))"

definition hex_val :: "char \<Rightarrow> nat option" where
  "hex_val c =
     (let n = (of_char c :: nat)
      in if 48 \<le> n \<and> n \<le> 57 then Some (n - 48)
         else if 97 \<le> n \<and> n \<le> 102 then Some (n - 87)
         else if 65 \<le> n \<and> n \<le> 70 then Some (n - 55)
         else None)"

definition unescape :: "char \<Rightarrow> char option" where
  "unescape e =
     (if e = DQ \<or> e = BS \<or> e = CHR ''/'' then Some e
      else if e = CHR ''n'' then Some LF
      else if e = CHR ''r'' then Some CR
      else if e = CHR ''t'' then Some (CHR 0x09)
      else if e = CHR ''b'' then Some (CHR 0x08)
      else if e = CHR ''f'' then Some (CHR 0x0C)
      else None)"

text \<open>The code point of a \<^verbatim>\<open>\uXXXX\<close> escape, from its four hexadecimal digits.\<close>

definition hex4 :: "char \<Rightarrow> char \<Rightarrow> char \<Rightarrow> char \<Rightarrow> nat option" where
  "hex4 a b c d =
     (case (hex_val a, hex_val b, hex_val c, hex_val d) of
        (Some p, Some q, Some r, Some s) \<Rightarrow> Some (((p * 16 + q) * 16 + r) * 16 + s)
      | _ \<Rightarrow> None)"

text \<open>
  The characters of a string literal, after its opening quote. A control character, an
  unknown escape and the end of the text are errors.
\<close>

fun parse_chars :: "string \<Rightarrow> string option scan" where
  "parse_chars [] = NoParse"
| "parse_chars (c # cs) =
     (if c = DQ then Scanned (Some []) cs
      else if c = BS then
        (case cs of
           [] \<Rightarrow> NoParse
         | e # es \<Rightarrow>
             if e = CHR ''u'' then
               (case es of
                  h1 # h2 # h3 # h4 # rest \<Rightarrow>
                    (case hex4 h1 h2 h3 h4 of
                       None \<Rightarrow> NoParse
                     | Some n \<Rightarrow>
                         scan_map (cons_opt (if n < 256 then Some (char_of n) else None))
                           (parse_chars rest))
                | _ \<Rightarrow> NoParse)
             else
               (case unescape e of
                  None \<Rightarrow> NoParse
                | Some d \<Rightarrow> scan_map (cons_opt (Some d)) (parse_chars es)))
      else if (of_char c :: nat) < 32 then NoParse
      else scan_map (cons_opt (Some c)) (parse_chars cs))"

definition is_digit :: "char \<Rightarrow> bool" where
  "is_digit c = (48 \<le> (of_char c :: nat) \<and> (of_char c :: nat) \<le> 57)"

definition read_nat :: "string \<Rightarrow> nat" where
  "read_nat ds = foldl (\<lambda>n d. 10 * n + (of_char d - 48)) 0 ds"

text \<open>
  A number: an optional sign, then \<open>0\<close> or a digit sequence that does not start with
  \<open>0\<close>; then a fraction (a point and digits) and an exponent (\<open>e\<close> or \<open>E\<close>, an optional
  sign, digits), each only when its digits are there. With a fraction or an exponent the
  number is a float; without, it is an integer, and \<^verbatim>\<open>int\<close> refuses more than
  \<open>max_digits\<close> digits.
\<close>

definition has_frac :: "string \<Rightarrow> bool" where
  "has_frac r = (case r of c # d # _ \<Rightarrow> c = CHR ''.'' \<and> is_digit d | _ \<Rightarrow> False)"

definition exp_digits :: "string \<Rightarrow> string" where
  "exp_digits r =
     (let r' = tl r
      in if r' \<noteq> [] \<and> (hd r' = CHR ''+'' \<or> hd r' = CHR ''-'') then tl r' else r')"

definition has_exp :: "string \<Rightarrow> bool" where
  "has_exp r =
     (r \<noteq> [] \<and> (hd r = CHR ''e'' \<or> hd r = CHR ''E'') \<and>
      exp_digits r \<noteq> [] \<and> is_digit (hd (exp_digits r)))"

definition scan_digits :: "nat \<Rightarrow> bool \<Rightarrow> string \<Rightarrow> int option scan" where
  "scan_digits max_digits neg t =
     (if t = [] \<or> \<not> is_digit (hd t) then NoParse
      else
        (let ds = (if hd t = CHR ''0'' then [hd t] else takeWhile is_digit t);
             r = drop (length ds) t;
             r1 = (if has_frac r then dropWhile is_digit (tl r) else r);
             r2 = (if has_exp r1 then dropWhile is_digit (exp_digits r1) else r1)
         in if has_frac r \<or> has_exp r1 then Scanned None r2
            else if length ds > max_digits then Overflow
            else Scanned (Some (if neg then - int (read_nat ds) else int (read_nat ds))) r))"

definition parse_number :: "nat \<Rightarrow> string \<Rightarrow> int option scan" where
  "parse_number max_digits s =
     (if s \<noteq> [] \<and> hd s = CHR ''-'' then scan_digits max_digits True (tl s)
      else scan_digits max_digits False s)"

definition dict_of :: "(string \<times> pyval) list \<Rightarrow> (string \<times> pyval) list" where
  "dict_of kvs = foldl (\<lambda>m (k, v). dict_set m k v) [] kvs"

text \<open>
  A value, the items of a list after its opening bracket, and the members of a
  dictionary after its opening brace. The arguments are the digit bound, a bound on the
  number of calls (for termination only), and the number of containers that may still be
  entered.
\<close>

fun parse_value :: "nat \<Rightarrow> nat \<Rightarrow> nat \<Rightarrow> string \<Rightarrow> pyval option scan"
  and parse_items :: "nat \<Rightarrow> nat \<Rightarrow> nat \<Rightarrow> string \<Rightarrow> pyval list option scan"
  and parse_members :: "nat \<Rightarrow> nat \<Rightarrow> nat \<Rightarrow> string \<Rightarrow> (string \<times> pyval) list option scan" where
  "parse_value digs 0 depth s = NoParse"
| "parse_value digs (Suc n) depth s =
     (case s of
        [] \<Rightarrow> NoParse
      | c # cs \<Rightarrow>
          if c = DQ then scan_map (map_option PyStr) (parse_chars cs)
          else if c = CHR ''{'' then
            (if depth = 0 then Overflow
             else
               (case skip_ws cs of
                  [] \<Rightarrow> NoParse
                | d # r \<Rightarrow>
                    if d = CHR ''}'' then Scanned (Some (PyDict [])) r
                    else scan_map (map_option (\<lambda>kvs. PyDict (dict_of kvs)))
                           (parse_members digs n (depth - 1) (d # r))))
          else if c = CHR ''['' then
            (if depth = 0 then Overflow
             else
               (case skip_ws cs of
                  [] \<Rightarrow> NoParse
                | d # r \<Rightarrow>
                    if d = CHR '']'' then Scanned (Some (PyList [])) r
                    else scan_map (map_option PyList) (parse_items digs n (depth - 1) (d # r))))
          else if c = CHR ''n'' then
            (if take 3 cs = ''ull'' then Scanned (Some PyNone) (drop 3 cs) else NoParse)
          else if c = CHR ''t'' then
            (if take 3 cs = ''rue'' then Scanned (Some (PyBool True)) (drop 3 cs) else NoParse)
          else if c = CHR ''f'' then
            (if take 4 cs = ''alse'' then Scanned (Some (PyBool False)) (drop 4 cs) else NoParse)
          else if c = CHR ''N'' then
            (if take 2 cs = ''aN'' then Scanned None (drop 2 cs) else NoParse)
          else if c = CHR ''I'' then
            (if take 7 cs = ''nfinity'' then Scanned None (drop 7 cs) else NoParse)
          else if c = CHR ''-'' \<and> take 8 cs = ''Infinity'' then Scanned None (drop 8 cs)
          else scan_map (map_option PyInt) (parse_number digs s))"
| "parse_items digs 0 depth s = NoParse"
| "parse_items digs (Suc n) depth s =
     (case parse_value digs n depth s of
        NoParse \<Rightarrow> NoParse
      | Overflow \<Rightarrow> Overflow
      | Scanned v r \<Rightarrow>
          (case skip_ws r of
             [] \<Rightarrow> NoParse
           | d # r' \<Rightarrow>
               if d = CHR '']'' then Scanned (cons_opt v (Some [])) r'
               else if d = CHR '','' then
                 scan_map (cons_opt v) (parse_items digs n depth (skip_ws r'))
               else NoParse))"
| "parse_members digs 0 depth s = NoParse"
| "parse_members digs (Suc n) depth s =
     (case s of
        [] \<Rightarrow> NoParse
      | q # s' \<Rightarrow>
          if q \<noteq> DQ then NoParse
          else
            (case parse_chars s' of
               NoParse \<Rightarrow> NoParse
             | Overflow \<Rightarrow> Overflow
             | Scanned k r \<Rightarrow>
                 (case skip_ws r of
                    [] \<Rightarrow> NoParse
                  | col # r1 \<Rightarrow>
                      if col \<noteq> CHR '':'' then NoParse
                      else
                        (case parse_value digs n depth (skip_ws r1) of
                           NoParse \<Rightarrow> NoParse
                         | Overflow \<Rightarrow> Overflow
                         | Scanned v r2 \<Rightarrow>
                             (case skip_ws r2 of
                                [] \<Rightarrow> NoParse
                              | d # r3 \<Rightarrow>
                                  if d = CHR ''}'' then Scanned (cons_opt (pair_opt k v) (Some [])) r3
                                  else if d = CHR '','' then
                                    scan_map (cons_opt (pair_opt k v))
                                      (parse_members digs n depth (skip_ws r3))
                                  else NoParse)))))"

text \<open>
  \<open>json_loads\<close> with the two bounds of the interpreter. The result is \<open>None\<close> where
  \<^verbatim>\<open>json.loads\<close> returns a value that \<open>pyval\<close> does not have. Every call of the scanner
  reads a character within two calls, so twice the length of the text bounds the calls.
\<close>

definition json_loads :: "nat \<Rightarrow> nat \<Rightarrow> string \<Rightarrow> loads_result option" where
  "json_loads limit digs s =
     (case parse_value digs (2 * length s + 2) limit (skip_ws s) of
        NoParse \<Rightarrow> Some JSONDecodeError
      | Overflow \<Rightarrow> Some OtherException
      | Scanned v r \<Rightarrow> if skip_ws r \<noteq> [] then Some JSONDecodeError else map_option Parsed v)"

text \<open>
  The codec with the defaults of CPython 3.11: a recursion limit of 1000 and at most
  4300 digits in an integer. The depth at which the interpreter gives up also depends on
  the calls already on its stack, so 1000 stands for a depth near it. On a text with a
  float or a high code point nothing is said about what the codec reads.
\<close>

definition json :: codec where
  "json = \<lparr>dumps = json_dumps, loads = (\<lambda>s. the (json_loads 1000 4300 s))\<rparr>"

text \<open>
  For the proof that \<open>json_loads\<close> reads what \<open>json_dumps\<close> writes: a value that fits
  the bounds (its integers have at most \<open>digs\<close> digits, its containers are nested at
  most \<open>depth\<close> deep) and whose dictionaries have pairwise different keys, as every
  Python dictionary has; a text after a number that does not continue the number; and
  the printable ASCII characters.
\<close>

fun fits :: "nat \<Rightarrow> nat \<Rightarrow> pyval \<Rightarrow> bool"
  and fits_items :: "nat \<Rightarrow> nat \<Rightarrow> pyval list \<Rightarrow> bool"
  and fits_members :: "nat \<Rightarrow> nat \<Rightarrow> (string \<times> pyval) list \<Rightarrow> bool" where
  "fits digs depth (PyInt i) = (length (show_nat (nat \<bar>i\<bar>)) \<le> digs)"
| "fits digs depth (PyList xs) = (0 < depth \<and> fits_items digs (depth - 1) xs)"
| "fits digs depth (PyDict kvs) =
     (0 < depth \<and> distinct (map fst kvs) \<and> fits_members digs (depth - 1) kvs)"
| "fits digs depth v = True"
| "fits_items digs depth [] = True"
| "fits_items digs depth (x # xs) = (fits digs depth x \<and> fits_items digs depth xs)"
| "fits_members digs depth [] = True"
| "fits_members digs depth ((k, v) # kvs) = (fits digs depth v \<and> fits_members digs depth kvs)"

definition num_end :: "string \<Rightarrow> bool" where
  "num_end rest = (rest = [] \<or> (\<not> is_digit (hd rest) \<and> hd rest \<notin> set ''.eE''))"

definition printable :: "char \<Rightarrow> bool" where
  "printable c = (32 \<le> (of_char c :: nat) \<and> (of_char c :: nat) \<le> 126)"

section \<open>Sequences of calls\<close>

text \<open>
  The lines a reader of the queue file sees, a run of appends (stopping at the first
  that raises), a run of \<open>n\<close> calls of \<^verbatim>\<open>_read_from_file\<close> with their results, and
  the text that a run of appends writes.
\<close>

definition lines_of :: "filesys \<Rightarrow> string list" where
  "lines_of fs = (case content fs of None \<Rightarrow> [] | Some txt \<Rightarrow> readlines txt)"

fun appends :: "codec \<Rightarrow> pyval list \<Rightarrow> filesys \<Rightarrow> exn + filesys" where
  "appends c [] fs = Inr fs"
| "appends c (r # rs) fs =
     (case append_to_file c r fs of Inl e \<Rightarrow> Inl e | Inr fs' \<Rightarrow> appends c rs fs')"

fun pops :: "codec \<Rightarrow> nat \<Rightarrow> filesys \<Rightarrow> pyval list \<times> filesys" where
  "pops c 0 fs = ([], fs)"
| "pops c (Suc n) fs =
     (case read_from_file c fs of (event, fs1) \<Rightarrow>
        (case pops c n fs1 of (events, fs2) \<Rightarrow> (event # events, fs2)))"

definition file_text :: "codec \<Rightarrow> pyval list \<Rightarrow> string" where
  "file_text c rs = concat (map (\<lambda>r. dumps c r @ [LF]) rs)"

text \<open>
  What the queue needs from the codec at a record: the text of the record has no line
  break in it, is not blank, and parses back to the record.
\<close>

definition roundtrips :: "codec \<Rightarrow> pyval \<Rightarrow> bool" where
  "roundtrips c r =
     (LF \<notin> set (dumps c r) \<and> CR \<notin> set (dumps c r) \<and> strip (dumps c r) \<noteq> [] \<and>
      loads c (strip (dumps c r)) = Parsed r)"

text \<open>
  A line of a file under test is a record or a text that is not one; \<open>render\<close> writes
  either with its line terminator.
\<close>

definition render :: "codec \<Rightarrow> string + pyval \<Rightarrow> string" where
  "render c e = (case e of Inl bad \<Rightarrow> bad @ [LF] | Inr r \<Rightarrow> dumps c r @ [LF])"

fun records_of :: "(string + pyval) list \<Rightarrow> pyval list" where
  "records_of [] = []"
| "records_of (Inl bad # es) = records_of es"
| "records_of (Inr r # es) = r # records_of es"

text \<open>
  A malformed line: one line, not blank, on which \<^verbatim>\<open>json.loads\<close> raises. The lines that the
  handlers of \<^verbatim>\<open>JSONDecodeError\<close> and the test for a blank line take care of are the
  blank ones and those on which \<^verbatim>\<open>json.loads\<close> raises \<^verbatim>\<open>JSONDecodeError\<close>.
\<close>

definition malformed :: "codec \<Rightarrow> string \<Rightarrow> bool" where
  "malformed c bad =
     (LF \<notin> set bad \<and> CR \<notin> set bad \<and> strip bad \<noteq> [] \<and>
      (case loads c (strip bad) of Parsed v \<Rightarrow> False | JSONDecodeError \<Rightarrow> True
       | OtherException \<Rightarrow> True))"

definition passed_over :: "codec \<Rightarrow> string \<Rightarrow> bool" where
  "passed_over c bad =
     (LF \<notin> set bad \<and> CR \<notin> set bad \<and>
      (strip bad = [] \<or> loads c (strip bad) = JSONDecodeError))"

text \<open>The two records of the concrete scenario, and a queue file that does not exist.\<close>

definition view_event :: pyval where
  "view_event = PyDict [(''site_id'', PyStr ''s1''), (''event_type'', PyStr ''view'')]"

definition click_event :: pyval where
  "click_event = PyDict [(''site_id'', PyStr ''s1''), (''event_type'', PyStr ''click'')]"

definition absent :: filesys where
  "absent = \<lparr>content = None, denied = False\<rparr>"

text \<open>
  Files for the concrete runs: the two records on two lines, a truncated first line
  before them, and a blank first line before a record.
\<close>

definition two_lines :: filesys where
  "two_lines = \<lparr>content = Some (json_dumps view_event @ [LF] @ json_dumps click_event @ [LF]),
                 denied = False\<rparr>"

definition truncated_line :: string where
  "truncated_line = take 20 (json_dumps view_event)"

definition crashed :: filesys where
  "crashed = \<lparr>content = Some (truncated_line @ [LF] @ file_text json [view_event, click_event]),
               denied = False\<rparr>"

definition blank_first :: filesys where
  "blank_first = \<lparr>content = Some ('' '' @ [LF] @ file_text json [view_event]), denied = False\<rparr>"

text \<open>Queue objects of the two kinds, and a file that cannot be opened.\<close>

definition consumer :: shared_queue where
  "consumer = \<lparr>use_file_directly = True, in_memory_queue = []\<rparr>"

definition producer :: shared_queue where
  "producer = \<lparr>use_file_directly = False, in_memory_queue = []\<rparr>"

definition unwritable :: filesys where
  "unwritable = \<lparr>content = None, denied = True\<rparr>"

text \<open>
  A file under test line by line: each entry is a valid record or a line that is passed
  over. The concrete one has a truncated line between the two records.
\<close>

definition valid_entry :: "codec \<Rightarrow> string + pyval \<Rightarrow> bool" where
  "valid_entry c e = (case e of Inl bad \<Rightarrow> passed_over c bad | Inr r \<Rightarrow> roundtrips c r)"

definition mixed_entries :: "(string + pyval) list" where
  "mixed_entries = [Inr view_event, Inl truncated_line, Inr click_event]"

definition mixed_file :: filesys where
  "mixed_file = \<lparr>content = Some (concat (map (render json) mixed_entries)), denied = False\<rparr>"

text \<open>
  A line of 2000 opening brackets, on which \<^verbatim>\<open>json.loads\<close> raises
  \<^verbatim>\<open>RecursionError\<close>; a file with that line before the two records, and one with it
  between them.
\<close>

definition deep_line :: string where
  "deep_line = replicate 2000 (CHR ''['')"

definition stuck :: filesys where
  "stuck = \<lparr>content = Some (deep_line @ [LF] @ file_text json [view_event, click_event]),
             denied = False\<rparr>"

definition broken_entries :: "(string + pyval) list" where
  "broken_entries = [Inr view_event, Inl deep_line, Inr click_event]"

definition broken_file :: filesys where
  "broken_file = \<lparr>content = Some (concat (map (render json) broken_entries)), denied = False\<rparr>"

text \<open>Requests for the concrete runs: one without a timestamp, one with.\<close>

definition view_request :: request where
  "view_request = \<lparr>is_json = True, get_json = Some view_event\<rparr>"

definition stamped_event :: pyval where
  "stamped_event = PyDict [(''site_id'', PyStr ''s1''), (''event_type'', PyStr ''view''),
     (''timestamp'', PyStr ''2025-11-12T19:30:01Z'')]"

definition stamped_request :: request where
  "stamped_request = \<lparr>is_json = True, get_json = Some stamped_event\<rparr>"

section \<open>Lines of a text\<close>

lemma universal_newlines_no_CR: "CR \<notin> set s \<Longrightarrow> universal_newlines s = s"
  by (induction s rule: universal_newlines.induct) auto


lemma readline_concat: "readline s = (l, rest) \<Longrightarrow> l @ rest = s"
  by (induction s arbitrary: l rest) (auto split: if_splits prod.splits)

lemma readline_line: "LF \<notin> set l \<Longrightarrow> readline (l @ LF # rest) = (l @ [LF], rest)"
  by (induction l) auto

lemma text_lines_line: "LF \<notin> set l \<Longrightarrow> text_lines (l @ LF # rest) = (l @ [LF]) # text_lines rest"
  using readline_line [of l rest] by (cases l) (simp_all del: readline.simps)

lemma text_lines_last: "LF \<notin> set l \<Longrightarrow> l \<noteq> [] \<Longrightarrow> text_lines l = [l]"
proof -
  assume a: "LF \<notin> set l" "l \<noteq> []"
  have "LF \<notin> set l \<Longrightarrow> readline l = (l, [])" by (induction l) auto
  with a show ?thesis by (cases l) (simp_all del: readline.simps)
qed

lemma concat_text_lines: "concat (text_lines s) = s"
proof (induction s rule: text_lines.induct)
  case 1
  show ?case by simp
next
  case (2 c cs)
  obtain l rest where r: "readline (c # cs) = (l, rest)" by (cases "readline (c # cs)")
  from "2" [OF r [symmetric]] readline_concat [OF r] r show ?case
    by (simp del: readline.simps)
qed




lemma strip_snoc: "is_space c \<Longrightarrow> strip (s @ [c]) = strip s"
proof (cases "\<forall>x\<in>set s. is_space x")
  case True
  assume "is_space c"
  with True have d: "dropWhile is_space (s @ [c]) = []" "dropWhile is_space s = []"
    by simp_all
  show ?thesis unfolding strip_def d by simp
next
  case False
  assume c: "is_space c"
  from False have d: "dropWhile is_space (s @ [c]) = dropWhile is_space s @ [c]"
    by (auto simp: dropWhile_append1)
  show ?thesis unfolding strip_def d using c by simp
qed

lemma is_space_LF: "is_space LF"
  by (simp add: is_space_def)

lemma readlines_line:
  assumes "LF \<notin> set l" "CR \<notin> set l"
  shows "readlines (l @ LF # rest) = (l @ [LF]) # readlines rest"
proof -
  have "universal_newlines (l @ LF # rest) = l @ LF # universal_newlines rest"
    using assms(2)
  proof (induction l)
    case Nil
    show ?case by (cases rest) simp_all
  next
    case (Cons a l)
    then show ?case by (cases "l @ LF # rest") auto
  qed
  with assms(1) show ?thesis by (simp add: readlines_def text_lines_line)
qed

lemma readlines_Nil [simp]: "readlines [] = []"
  by (simp add: readlines_def)

lemma concat_readlines: "CR \<notin> set s \<Longrightarrow> concat (readlines s) = s"
  by (simp add: readlines_def universal_newlines_no_CR concat_text_lines)

section \<open>Reading and appending\<close>

lemma lines_of_Some [simp]: "lines_of (fs\<lparr>content := Some tx\<rparr>) = readlines tx"
  by (simp add: lines_of_def)

lemma read_from_file_Parsed:
  assumes "content fs = Some tx" "\<not> denied fs" "readlines tx = l # ls"
    and "strip l \<noteq> []" "loads c (strip l) = Parsed event"
  shows "read_from_file c fs = (event, fs\<lparr>content := Some (concat ls)\<rparr>)"
  using assms by (simp add: read_from_file_def)

lemma read_from_file_bad:
  assumes "content fs = Some tx" "\<not> denied fs" "readlines tx = l # ls"
    and "strip l \<noteq> []" "loads c (strip l) = JSONDecodeError"
  shows "read_from_file c fs = (PyNone, fs\<lparr>content := Some (concat ls)\<rparr>)"
  using assms by (simp add: read_from_file_def drop_first_line_def)



lemma appends_Some:
  "\<not> denied fs \<Longrightarrow> content fs = Some tx \<Longrightarrow>
   appends c rs fs = Inr (fs\<lparr>content := Some (tx @ file_text c rs)\<rparr>)"
proof (induction rs arbitrary: fs tx)
  case Nil
  then show ?case by (simp add: file_text_def)
next
  case (Cons r rs)
  let ?fs' = "fs\<lparr>content := Some (tx @ dumps c r @ [LF])\<rparr>"
  from Cons.prems have a: "append_to_file c r fs = Inr ?fs'" by (simp add: append_to_file_def)
  have "appends c rs ?fs' = Inr (?fs'\<lparr>content := Some ((tx @ dumps c r @ [LF]) @ file_text c rs)\<rparr>)"
    using Cons.prems by (intro Cons.IH) simp_all
  with a show ?case by (simp add: file_text_def)
qed

lemma appends_None:
  "\<not> denied fs \<Longrightarrow> content fs = None \<Longrightarrow> rs \<noteq> [] \<Longrightarrow>
   appends c rs fs = Inr (fs\<lparr>content := Some (file_text c rs)\<rparr>)"
proof (cases rs)
  case Nil
  assume "rs \<noteq> []"
  with Nil show ?thesis by simp
next
  case (Cons r rs')
  assume d: "\<not> denied fs" and n: "content fs = None"
  let ?fs' = "fs\<lparr>content := Some (dumps c r @ [LF])\<rparr>"
  from d n have a: "append_to_file c r fs = Inr ?fs'" by (simp add: append_to_file_def)
  have "appends c rs' ?fs' = Inr (?fs'\<lparr>content := Some ((dumps c r @ [LF]) @ file_text c rs')\<rparr>)"
    using d by (intro appends_Some) simp_all
  with a Cons show ?thesis by (simp add: file_text_def)
qed

lemma file_text_no_CR: "\<forall>r\<in>set rs. roundtrips c r \<Longrightarrow> CR \<notin> set (file_text c rs)"
  by (auto simp: file_text_def roundtrips_def)

lemma pops_file_text:
  assumes "\<forall>r\<in>set rs. roundtrips c r \<and> r \<noteq> PyNone"
    and "\<not> denied fs" "content fs = Some (file_text c rs)"
  shows "pops c (length rs) fs = (rs, fs\<lparr>content := Some []\<rparr>)"
  using assms
proof (induction rs arbitrary: fs)
  case Nil
  then show ?case by (simp add: file_text_def)
next
  case (Cons r rs)
  from Cons.prems(1) have rt: "roundtrips c r" and nn: "r \<noteq> PyNone" by simp_all
  have tx: "file_text c (r # rs) = dumps c r @ LF # file_text c rs"
    by (simp add: file_text_def)
  from rt have ls: "readlines (file_text c (r # rs)) = (dumps c r @ [LF]) # readlines (file_text c rs)"
    unfolding tx by (intro readlines_line) (simp_all add: roundtrips_def)
  have st: "strip (dumps c r @ [LF]) = strip (dumps c r)"
    by (rule strip_snoc) (rule is_space_LF)
  let ?fs' = "fs\<lparr>content := Some (concat (readlines (file_text c rs)))\<rparr>"
  have rd: "read_from_file c fs = (r, ?fs')"
    using Cons.prems(2,3) ls rt
    by (intro read_from_file_Parsed [where tx = "file_text c (r # rs)" and l = "dumps c r @ [LF]"])
       (simp_all add: st roundtrips_def)
  have cc: "concat (readlines (file_text c rs)) = file_text c rs"
    using Cons.prems(1) by (intro concat_readlines file_text_no_CR) simp
  have "pops c (length rs) ?fs' = (rs, ?fs'\<lparr>content := Some []\<rparr>)"
    using Cons.prems by (intro Cons.IH) (simp_all add: cc)
  with rd show ?case by simp
qed

lemma readlines_file_text:
  "\<forall>r\<in>set rs. roundtrips c r \<Longrightarrow> readlines (file_text c rs) = map (\<lambda>r. dumps c r @ [LF]) rs"
proof (induction rs)
  case Nil
  show ?case by (simp add: file_text_def)
next
  case (Cons r rs)
  have "file_text c (r # rs) = dumps c r @ LF # file_text c rs" by (simp add: file_text_def)
  moreover have "readlines (dumps c r @ LF # file_text c rs) = (dumps c r @ [LF]) # readlines (file_text c rs)"
    using Cons.prems by (intro readlines_line) (simp_all add: roundtrips_def)
  ultimately show ?case using Cons by simp
qed

lemma strip_line: "strip (s @ [LF]) = strip s"
  by (rule strip_snoc) (rule is_space_LF)

lemma read_file_text:
  assumes "\<forall>r\<in>set (r # rs). roundtrips c r" and "\<not> denied fs"
    and "content fs = Some (file_text c (r # rs))"
  shows "read_from_file c fs = (r, fs\<lparr>content := Some (file_text c rs)\<rparr>)"
proof -
  from assms(1) have rt: "roundtrips c r" and rts: "\<forall>r\<in>set rs. roundtrips c r" by simp_all
  have "concat (map (\<lambda>r. dumps c r @ [LF]) rs) = file_text c rs" by (simp add: file_text_def)
  moreover have "read_from_file c fs = (r, fs\<lparr>content := Some (concat (map (\<lambda>r. dumps c r @ [LF]) rs))\<rparr>)"
    using assms(2,3) rt readlines_file_text [OF assms(1)]
    by (intro read_from_file_Parsed [where l = "dumps c r @ [LF]"])
       (simp_all add: strip_line roundtrips_def)
  ultimately show ?thesis by simp
qed

lemma count_file_text:
  assumes "\<forall>r\<in>set rs. roundtrips c r" and "\<not> denied fs" and "content fs = Some (file_text c rs)"
  shows "count_file_lines fs = length rs"
proof -
  have "filter (\<lambda>line. strip line \<noteq> []) (map (\<lambda>r. dumps c r @ [LF]) rs) = map (\<lambda>r. dumps c r @ [LF]) rs"
    using assms(1) by (induction rs) (simp_all add: strip_line roundtrips_def)
  with assms readlines_file_text [OF assms(1)] show ?thesis
    by (simp add: count_file_lines_def)
qed

lemma read_bad_line:
  assumes "LF \<notin> set bad" "CR \<notin> set bad" "strip bad \<noteq> []"
    and "loads c (strip bad) = JSONDecodeError" and "CR \<notin> set rest"
    and "\<not> denied fs" "content fs = Some (bad @ LF # rest)"
  shows "read_from_file c fs = (PyNone, fs\<lparr>content := Some rest\<rparr>)"
proof -
  have "readlines (bad @ LF # rest) = (bad @ [LF]) # readlines rest"
    using assms(1,2) by (rule readlines_line)
  then have "read_from_file c fs = (PyNone, fs\<lparr>content := Some (concat (readlines rest))\<rparr>)"
    using assms by (intro read_from_file_bad [where l = "bad @ [LF]"]) (simp_all add: strip_line)
  with assms(5) show ?thesis by (simp add: concat_readlines)
qed

section \<open>The JSON codec reads what it writes\<close>

text \<open>
  The concrete codec meets \<open>roundtrips\<close> at every value that fits the bounds and whose
  dictionaries have pairwise different keys, so what is proved below for a codec and the
  records it round-trips holds for \<open>json\<close> and all such records.
\<close>

lemma hex_val_hex_digit: "hex_val (hex_digit k) = Some (k mod 16)"
proof -
  define j where "j = k mod 16"
  have "j < 16" by (simp add: j_def)
  then consider "j = 0" | "j = 1" | "j = 2" | "j = 3" | "j = 4" | "j = 5" | "j = 6" | "j = 7"
    | "j = 8" | "j = 9" | "j = 10" | "j = 11" | "j = 12" | "j = 13" | "j = 14" | "j = 15"
    by atomize_elim arith
  then have "hex_val (''0123456789abcdef'' ! j) = Some j"
    by cases (simp_all add: hex_val_def)
  then show ?thesis by (simp add: hex_digit_def j_def)
qed

lemma hex4_escape:
  "hex4 (CHR ''0'') (CHR ''0'') (hex_digit (of_char c div 16)) (hex_digit (of_char c))
     = Some (of_char c)"
proof -
  have z: "hex_val (CHR ''0'') = Some 0" by (simp add: hex_val_def)
  have lt: "(of_char c :: nat) < 256" by simp
  then have "(of_char c :: nat) div 16 < 16" by arith
  then have "(of_char c :: nat) div 16 mod 16 = of_char c div 16" by simp
  moreover have "(of_char c :: nat) div 16 * 16 + of_char c mod 16 = of_char c" by simp
  ultimately show ?thesis
    by (simp add: hex4_def z hex_val_hex_digit)
qed

lemma scan_cons:
  "scan_map (cons_opt (Some c)) (Scanned (Some s) rest) = Scanned (Some (c # s)) rest"
  by (simp add: scan_map_def cons_opt_def)

lemma parse_chars_escape:
  "parse_chars (escape_char c @ rest) = scan_map (cons_opt (Some c)) (parse_chars rest)"
proof -
  consider (named) "c \<in> {DQ, BS, LF, CR, CHR 0x09, CHR 0x08, CHR 0x0C}"
    | (plain) "c \<notin> {DQ, BS, LF, CR, CHR 0x09, CHR 0x08, CHR 0x0C}" "32 \<le> (of_char c :: nat)" "(of_char c :: nat) \<le> 126"
    | (other) "c \<notin> {DQ, BS, LF, CR, CHR 0x09, CHR 0x08, CHR 0x0C}" "\<not> (32 \<le> (of_char c :: nat) \<and> (of_char c :: nat) \<le> 126)"
    by blast
  then show ?thesis
  proof cases
    case named
    then show ?thesis by (auto simp: escape_char_def unescape_def)
  next
    case plain
    then show ?thesis by (auto simp: escape_char_def)
  next
    case other
    then have "escape_char c = [BS, CHR ''u'', CHR ''0'', CHR ''0'', hex_digit (of_char c div 16), hex_digit (of_char c)]"
      by (auto simp: escape_char_def Let_def)
    then show ?thesis by (simp add: hex4_escape)
  qed
qed

lemma parse_chars_string:
  "parse_chars (concat (map escape_char s) @ DQ # rest) = Scanned (Some s) rest"
proof (induction s)
  case Nil
  show ?case by simp
next
  case (Cons c s)
  have "parse_chars (concat (map escape_char (c # s)) @ DQ # rest)
      = parse_chars (escape_char c @ concat (map escape_char s) @ DQ # rest)" by simp
  also have "\<dots> = scan_map (cons_opt (Some c)) (parse_chars (concat (map escape_char s) @ DQ # rest))"
    by (rule parse_chars_escape)
  finally show ?case by (simp only: Cons.IH scan_cons)
qed

lemma digit_char:
  "(k::nat) < 10 \<Longrightarrow> is_digit (char_of (48 + k)) \<and> (of_char (char_of (48 + k)) :: nat) = 48 + k"
  by (simp add: is_digit_def)

lemma show_nat_digits: "\<forall>d\<in>set (show_nat n). is_digit d"
proof (induction n rule: show_nat.induct)
  case (1 n)
  show ?case
  proof (cases "n < 10")
    case True
    then show ?thesis by (subst show_nat.simps) (simp add: digit_char)
  next
    case False
    with 1 show ?thesis by (subst show_nat.simps) (simp add: digit_char)
  qed
qed

lemma show_nat_nonempty: "show_nat n \<noteq> []"
  by (subst show_nat.simps) simp

lemma read_nat_snoc: "read_nat (ds @ [d]) = 10 * read_nat ds + (of_char d - 48)"
  by (simp add: read_nat_def)

lemma read_show_nat: "read_nat (show_nat n) = n"
proof (induction n rule: show_nat.induct)
  case (1 n)
  show ?case
  proof (cases "n < 10")
    case True
    then have "show_nat n = [char_of (48 + n)]" by (subst show_nat.simps) simp
    with True show ?thesis by (simp add: read_nat_def digit_char)
  next
    case False
    then have "show_nat n = show_nat (n div 10) @ [char_of (48 + n mod 10)]"
      by (subst show_nat.simps) simp
    with False 1 show ?thesis by (simp add: read_nat_snoc digit_char)
  qed
qed

lemma show_nat_hd: "0 < n \<Longrightarrow> hd (show_nat n) \<noteq> CHR ''0''"
proof (induction n rule: show_nat.induct)
  case (1 n)
  show ?case
  proof (cases "n < 10")
    case True
    then have s: "show_nat n = [char_of (48 + n)]" by (subst show_nat.simps) simp
    have "(of_char (char_of (48 + n)) :: nat) \<noteq> of_char (CHR ''0'')"
      using True "1.prems" by (simp add: digit_char)
    then have "char_of (48 + n) \<noteq> CHR ''0''" by metis
    with s show ?thesis by simp
  next
    case False
    then have "show_nat n = show_nat (n div 10) @ [char_of (48 + n mod 10)]"
      by (subst show_nat.simps) simp
    moreover from False have "0 < n div 10" by simp
    ultimately show ?thesis using 1 False by (simp add: show_nat_nonempty)
  qed
qed

lemma show_nat_no_leading_zero:
  "\<not> (hd (show_nat n) = CHR ''0'' \<and> length (show_nat n) > 1)"
proof (cases "n = 0")
  case True
  then have "show_nat n = [char_of (48 + n)]" by (subst show_nat.simps) simp
  then show ?thesis by simp
next
  case False
  then show ?thesis using show_nat_hd [of n] by simp
qed

lemma digits_split:
  assumes "\<forall>d\<in>set ds. is_digit d" "rest = [] \<or> \<not> is_digit (hd rest)"
  shows "takeWhile is_digit (ds @ rest) = ds" "dropWhile is_digit (ds @ rest) = rest"
  using assms by (cases rest; simp add: takeWhile_append2 dropWhile_append2)+

lemma char_of_48: "char_of (48 :: nat) = CHR ''0''"
proof -
  have "(of_char (char_of (48 :: nat)) :: nat) = of_char (CHR ''0'')" by simp
  then show ?thesis by (simp only: of_char_eq_iff)
qed

lemma show_nat_ds:
  "(if hd (show_nat n @ rest) = CHR ''0'' then [hd (show_nat n @ rest)]
    else takeWhile is_digit (show_nat n @ rest)) = show_nat n"
  if "rest = [] \<or> \<not> is_digit (hd rest)"
proof (cases "n = 0")
  case True
  then have "show_nat n = [CHR ''0'']" by (subst show_nat.simps) (simp add: char_of_48)
  then show ?thesis by simp
next
  case False
  then have "hd (show_nat n) \<noteq> CHR ''0''" using show_nat_hd [of n] by simp
  then have "hd (show_nat n @ rest) \<noteq> CHR ''0''" using show_nat_nonempty [of n] by simp
  then show ?thesis using digits_split(1) [OF show_nat_digits that] by simp
qed

lemma num_end_no_float: "num_end rest \<Longrightarrow> \<not> has_frac rest \<and> \<not> has_exp rest"
  by (cases rest) (auto simp: num_end_def has_frac_def has_exp_def split: list.splits)

lemma show_nat_first: "is_digit (hd (show_nat n @ rest)) \<and> show_nat n @ rest \<noteq> []"
  using show_nat_digits [of n] show_nat_nonempty [of n] by (cases "show_nat n") auto

lemma scan_digits_show_nat:
  assumes "num_end rest" and "length (show_nat n) \<le> digs"
  shows "scan_digits digs neg (show_nat n @ rest)
           = Scanned (Some (if neg then - int n else int n)) rest"
proof -
  from assms(1) have e: "rest = [] \<or> \<not> is_digit (hd rest)" by (auto simp: num_end_def)
  note nf = num_end_no_float [OF assms(1)]
  note first = show_nat_first [of n rest]
  show ?thesis
    unfolding scan_digits_def using nf assms(2) first
    by (simp only: Let_def show_nat_ds [OF e]) (simp add: read_show_nat)
qed

lemma parse_number_digits:
  assumes "num_end rest" and "length (show_nat n) \<le> digs"
  shows "parse_number digs (show_nat n @ rest) = Scanned (Some (int n)) rest"
    and "parse_number digs (CHR ''-'' # show_nat n @ rest) = Scanned (Some (- int n)) rest"
proof -
  from show_nat_first [of n rest] have "hd (show_nat n @ rest) \<noteq> CHR ''-''"
    by (auto simp: is_digit_def)
  then show "parse_number digs (show_nat n @ rest) = Scanned (Some (int n)) rest"
    using scan_digits_show_nat [OF assms, of False] by (simp add: parse_number_def)
  show "parse_number digs (CHR ''-'' # show_nat n @ rest) = Scanned (Some (- int n)) rest"
    using scan_digits_show_nat [OF assms, of True] by (simp add: parse_number_def)
qed

lemma parse_number_show_int:
  assumes "num_end rest" and "length (show_nat (nat \<bar>i\<bar>)) \<le> digs"
  shows "parse_number digs (show_int i @ rest) = Scanned (Some i) rest"
proof (cases "i < 0")
  case True
  then have "show_int i @ rest = CHR ''-'' # show_nat (nat \<bar>i\<bar>) @ rest" "- int (nat \<bar>i\<bar>) = i"
    by (simp_all add: show_int_def abs_if)
  with parse_number_digits(2) [OF assms] show ?thesis by simp
next
  case False
  then have "show_int i @ rest = show_nat (nat \<bar>i\<bar>) @ rest" "int (nat \<bar>i\<bar>) = i"
    by (simp_all add: show_int_def abs_if)
  with parse_number_digits(1) [OF assms] show ?thesis by simp
qed

lemma show_int_head:
  "\<exists>c cs. show_int i = c # cs \<and> (is_digit c \<or> c = CHR ''-'')"
proof (cases "i < 0")
  case True
  then show ?thesis by (simp add: show_int_def)
next
  case False
  obtain c cs where s: "show_nat (nat i) = c # cs"
    using show_nat_nonempty [of "nat i"] by (cases "show_nat (nat i)") auto
  with show_nat_digits [of "nat i"] have "is_digit c" by simp
  with s False show ?thesis by (simp add: show_int_def)
qed

lemma json_dumps_head:
  "\<exists>c cs. json_dumps v = c # cs \<and> \<not> json_ws c \<and> c \<noteq> CHR '']'' \<and> c \<noteq> CHR ''}''"
proof (cases v)
  case (PyInt i)
  from show_int_head [of i] obtain c cs where "show_int i = c # cs" "is_digit c \<or> c = CHR ''-''"
    by blast
  with PyInt show ?thesis by (auto simp: json_ws_def is_digit_def)
qed (auto simp: json_ws_def json_string_def)

lemma skip_ws_dumps: "skip_ws (json_dumps v @ rest) = json_dumps v @ rest"
  using json_dumps_head [of v] by (auto simp: skip_ws_def)

lemma skip_ws_space: "skip_ws (CHR '' '' # s) = skip_ws s"
  by (simp add: skip_ws_def json_ws_def)

lemma skip_ws_punct:
  "skip_ws (CHR '','' # s) = CHR '','' # s" "skip_ws (CHR '']'' # s) = CHR '']'' # s"
  "skip_ws (CHR ''}'' # s) = CHR ''}'' # s" "skip_ws (CHR '':'' # s) = CHR '':'' # s"
  "skip_ws (DQ # s) = DQ # s"
  by (simp_all add: skip_ws_def json_ws_def)

lemma num_end_punct:
  "num_end (CHR '','' # s)" "num_end (CHR '']'' # s)" "num_end (CHR ''}'' # s)" "num_end []"
  by (simp_all add: num_end_def is_digit_def)

lemma parse_value_int:
  assumes "num_end rest" and "length (show_nat (nat \<bar>i\<bar>)) \<le> digs"
  shows "parse_value digs (Suc n) depth (show_int i @ rest) = Scanned (Some (PyInt i)) rest"
proof -
  from show_int_head [of i] obtain c cs where s: "show_int i = c # cs"
    and c: "is_digit c \<or> c = CHR ''-''" by blast
  from c have "c \<noteq> CHR ''n''" "c \<noteq> CHR ''t''" "c \<noteq> CHR ''f''" "c \<noteq> DQ" "c \<noteq> CHR ''[''"
    "c \<noteq> CHR ''{''" "c \<noteq> CHR ''N''" "c \<noteq> CHR ''I''" by (auto simp: is_digit_def)
  moreover have "\<not> (c = CHR ''-'' \<and> take 8 (cs @ rest) = ''Infinity'')"
  proof
    assume a: "c = CHR ''-'' \<and> take 8 (cs @ rest) = ''Infinity''"
    have "\<not> is_digit (CHR ''-'')" by (simp add: is_digit_def)
    with a s show_nat_first [of "nat i" "[]"] have neg: "i < 0"
      by (cases "i < 0") (auto simp: show_int_def)
    with s have cs: "cs = show_nat (nat (- i))" by (simp add: show_int_def)
    from show_nat_first [of "nat (- i)" rest] cs have "is_digit (hd (cs @ rest))" "cs @ rest \<noteq> []"
      by simp_all
    moreover from a have "hd (cs @ rest) = CHR ''I''" by (cases "cs @ rest") auto
    ultimately show False by (simp add: is_digit_def)
  qed
  ultimately have "parse_value digs (Suc n) depth (c # cs @ rest)
      = scan_map (map_option PyInt) (parse_number digs (c # cs @ rest))"
    by (cases "c = CHR ''-''") simp_all
  with parse_number_show_int [OF assms] s show ?thesis by (simp add: scan_map_def)
qed

lemma parse_value_str:
  "parse_value digs (Suc n) depth (json_string s @ rest) = Scanned (Some (PyStr s)) rest"
  by (simp add: json_string_def parse_chars_string scan_map_def del: parse_chars.simps)

lemma dict_set_absent: "key \<notin> fst ` set kvs \<Longrightarrow> dict_set kvs key v = kvs @ [(key, v)]"
  by (induction kvs) auto

lemma dict_of_pairs:
  "distinct (map fst (acc @ kvs)) \<Longrightarrow> foldl (\<lambda>m (k, v). dict_set m k v) acc kvs = acc @ kvs"
proof (induction kvs arbitrary: acc)
  case Nil
  show ?case by simp
next
  case (Cons kv kvs)
  obtain k v where kv: "kv = (k, v)" by (cases kv)
  from Cons.prems kv have "k \<notin> fst ` set acc" by auto
  then have "dict_set acc k v = acc @ [(k, v)]" by (rule dict_set_absent)
  with Cons.IH [of "acc @ [(k, v)]"] Cons.prems kv show ?case by simp
qed

lemma dumps_items_head:
  "xs \<noteq> [] \<Longrightarrow> \<exists>c cs. dumps_items xs = c # cs \<and> \<not> json_ws c \<and> c \<noteq> CHR '']''"
proof (cases xs)
  case Nil
  assume "xs \<noteq> []"
  with Nil show ?thesis by simp
next
  case (Cons x ys)
  from json_dumps_head [of x] obtain c cs where "json_dumps x = c # cs" "\<not> json_ws c" "c \<noteq> CHR '']''"
    by blast
  with Cons show ?thesis by (cases ys) auto
qed

lemma dumps_members_head:
  "kvs \<noteq> [] \<Longrightarrow> \<exists>cs. dumps_members kvs = DQ # cs"
proof (cases kvs)
  case Nil
  assume "kvs \<noteq> []"
  with Nil show ?thesis by simp
next
  case (Cons kv rest)
  obtain k v where "kv = (k, v)" by (cases kv)
  with Cons show ?thesis by (cases rest) (auto simp: json_string_def)
qed

lemma scan_simps:
  "scan_map f (Scanned x rest) = Scanned (f x) rest"
  "cons_opt (Some y) (Some ys) = Some (y # ys)"
  "pair_opt (Some a) (Some b) = Some (a, b)"
  by (simp_all add: scan_map_def cons_opt_def pair_opt_def)

lemma parse_roundtrip:
  "fits digs depth v \<Longrightarrow> 2 * length (json_dumps v) < n \<Longrightarrow> num_end rest \<Longrightarrow>
     parse_value digs n depth (json_dumps v @ rest) = Scanned (Some v) rest"
  "xs \<noteq> [] \<Longrightarrow> fits_items digs depth xs \<Longrightarrow> 2 * length (dumps_items xs) + 1 < n \<Longrightarrow>
     parse_items digs n depth (dumps_items xs @ CHR '']'' # rest) = Scanned (Some xs) rest"
  "kvs \<noteq> [] \<Longrightarrow> fits_members digs depth kvs \<Longrightarrow> 2 * length (dumps_members kvs) + 1 < n \<Longrightarrow>
     parse_members digs n depth (dumps_members kvs @ CHR ''}'' # rest) = Scanned (Some kvs) rest"
proof (induction v and xs and kvs arbitrary: n rest depth and n rest depth and n rest depth
    rule: json_dumps_dumps_items_dumps_members.induct)
  case 1
  then obtain m where "n = Suc m" by (cases n) auto
  then show ?case by simp
next
  case (2 b)
  then obtain m where "n = Suc m" by (cases n) auto
  then show ?case by simp
next
  case (3 i)
  then obtain m where "n = Suc m" by (cases n) auto
  with 3 parse_value_int [of rest i digs m depth] show ?case by simp
next
  case (4 s)
  then obtain m where "n = Suc m" by (cases n) auto
  with parse_value_str [of digs m depth s rest] show ?case by simp
next
  case (5 xs)
  from "5.prems"(2) obtain m where n: "n = Suc m" by (cases n) auto
  from "5.prems"(1) have d: "depth \<noteq> 0" by simp
  show ?case
  proof (cases "xs = []")
    case True
    with n d show ?thesis by (simp add: skip_ws_punct)
  next
    case False
    from dumps_items_head [OF False] obtain c cs where
      h: "dumps_items xs = c # cs" "\<not> json_ws c" "c \<noteq> CHR '']''" by blast
    then have sk: "skip_ws (dumps_items xs @ CHR '']'' # rest) = c # cs @ CHR '']'' # rest"
      by (simp add: skip_ws_def)
    have "parse_items digs m (depth - 1) (dumps_items xs @ CHR '']'' # rest) = Scanned (Some xs) rest"
      using "5.prems" n False by (intro "5.IH") simp_all
    with h have "parse_items digs m (depth - 1) (c # cs @ CHR '']'' # rest) = Scanned (Some xs) rest"
      by simp
    with n sk h(3) d show ?thesis by (simp add: scan_simps)
  qed
next
  case (6 kvs)
  from "6.prems"(2) obtain m where n: "n = Suc m" by (cases n) auto
  from "6.prems"(1) have d: "depth \<noteq> 0" by simp
  show ?case
  proof (cases "kvs = []")
    case True
    with n d show ?thesis by (simp add: skip_ws_punct)
  next
    case False
    from dumps_members_head [OF False] obtain cs where h: "dumps_members kvs = DQ # cs" by blast
    then have sk: "skip_ws (dumps_members kvs @ CHR ''}'' # rest) = DQ # cs @ CHR ''}'' # rest"
      by (simp add: skip_ws_punct)
    have "parse_members digs m (depth - 1) (dumps_members kvs @ CHR ''}'' # rest) = Scanned (Some kvs) rest"
      using "6.prems" n False by (intro "6.IH") simp_all
    with h have "parse_members digs m (depth - 1) (DQ # cs @ CHR ''}'' # rest) = Scanned (Some kvs) rest"
      by simp
    moreover from "6.prems"(1) have "dict_of kvs = kvs"
      using dict_of_pairs [of "[]" kvs] by (simp add: dict_of_def)
    ultimately show ?thesis using n sk d by (simp add: scan_simps)
  qed
next
  case 7
  then show ?case by simp
next
  case (8 x)
  from "8.prems"(3) obtain m where n: "n = Suc m" by (cases n) auto
  have "parse_value digs m depth (json_dumps x @ CHR '']'' # rest) = Scanned (Some x) (CHR '']'' # rest)"
    using "8.prems" n by (intro "8.IH") (simp_all add: num_end_punct)
  with n show ?case by (simp add: skip_ws_punct scan_simps)
next
  case (9 x y ys)
  from "9.prems"(3) obtain m where n: "n = Suc m" by (cases n) auto
  let ?tail = "dumps_items (y # ys) @ CHR '']'' # rest"
  have v: "parse_value digs m depth (json_dumps x @ CHR '','' # CHR '' '' # ?tail)
      = Scanned (Some x) (CHR '','' # CHR '' '' # ?tail)"
    using "9.prems" n by (intro "9.IH"(1)) (simp_all add: num_end_punct)
  from dumps_items_head [of "y # ys"] obtain c cs where
    h: "dumps_items (y # ys) = c # cs" "\<not> json_ws c" by blast
  then have sk: "skip_ws ?tail = ?tail"
    by (simp add: skip_ws_def)
  have "parse_items digs m depth ?tail = Scanned (Some (y # ys)) rest"
    using "9.prems" n by (intro "9.IH"(2)) simp_all
  then have "parse_items digs (Suc m) depth (json_dumps x @ CHR '','' # CHR '' '' # ?tail)
      = Scanned (Some (x # y # ys)) rest"
    by (simp add: v sk skip_ws_punct skip_ws_space scan_simps del: dumps_items.simps(3))
  with n show ?case by simp
next
  case 10
  then show ?case by simp
next
  case (11 k v)
  from "11.prems"(3) obtain m where n: "n = Suc m" by (cases n) auto
  have "parse_value digs m depth (json_dumps v @ CHR ''}'' # rest) = Scanned (Some v) (CHR ''}'' # rest)"
    using "11.prems" n by (intro "11.IH") (simp_all add: num_end_punct)
  with n show ?case
    by (simp add: json_string_def parse_chars_string skip_ws_punct skip_ws_space skip_ws_dumps
        scan_simps del: parse_chars.simps)
next
  case (12 k v kv kvs)
  from "12.prems"(3) obtain m where n: "n = Suc m" by (cases n) auto
  let ?tail = "dumps_members (kv # kvs) @ CHR ''}'' # rest"
  have v: "parse_value digs m depth (json_dumps v @ CHR '','' # CHR '' '' # ?tail)
      = Scanned (Some v) (CHR '','' # CHR '' '' # ?tail)"
    using "12.prems" n by (intro "12.IH"(1)) (simp_all add: num_end_punct)
  from dumps_members_head [of "kv # kvs"] obtain cs where
    h: "dumps_members (kv # kvs) = DQ # cs" by blast
  then have sk: "skip_ws ?tail = ?tail"
    by (simp add: skip_ws_punct)
  have m: "parse_members digs m depth ?tail = Scanned (Some (kv # kvs)) rest"
    using "12.prems" n by (intro "12.IH"(2)) simp_all
  have "parse_members digs (Suc m) depth
      (DQ # concat (map escape_char k) @ DQ # CHR '':'' # CHR '' '' # json_dumps v @ CHR '','' # CHR '' '' # ?tail)
      = Scanned (Some ((k, v) # kv # kvs)) rest"
    using v m sk
    by (simp add: parse_chars_string skip_ws_punct skip_ws_space skip_ws_dumps scan_simps
        del: parse_chars.simps dumps_members.simps(3))
  with n show ?case by (simp add: json_string_def)
qed

lemma hex_digit_printable: "printable (hex_digit k)"
proof -
  define j where "j = k mod 16"
  have "j < 16" by (simp add: j_def)
  then consider "j = 0" | "j = 1" | "j = 2" | "j = 3" | "j = 4" | "j = 5" | "j = 6" | "j = 7"
    | "j = 8" | "j = 9" | "j = 10" | "j = 11" | "j = 12" | "j = 13" | "j = 14" | "j = 15"
    by atomize_elim arith
  then have "printable (''0123456789abcdef'' ! j)"
    by cases (simp_all add: printable_def)
  then show ?thesis by (simp add: hex_digit_def j_def)
qed

lemma printable_lits:
  "printable BS" "printable DQ" "printable (CHR ''n'')" "printable (CHR ''r'')"
  "printable (CHR ''t'')" "printable (CHR ''b'')" "printable (CHR ''f'')" "printable (CHR ''u'')"
  "printable (CHR ''0'')" "printable (CHR ''['')" "printable (CHR '']'')" "printable (CHR ''{'')"
  "printable (CHR ''}'')" "printable (CHR '','')" "printable (CHR '' '')" "printable (CHR '':'')"
  "printable (CHR ''l'')" "printable (CHR ''e'')" "printable (CHR ''a'')" "printable (CHR ''s'')"
  "printable (CHR ''-'')"
  by (simp_all add: printable_def)

lemma escape_char_printable: "d \<in> set (escape_char c) \<Longrightarrow> printable d"
proof -
  assume d: "d \<in> set (escape_char c)"
  consider (named) "c \<in> {DQ, BS, LF, CR, CHR 0x09, CHR 0x08, CHR 0x0C}"
    | (plain) "c \<notin> {DQ, BS, LF, CR, CHR 0x09, CHR 0x08, CHR 0x0C}" "printable c"
    | (other) "c \<notin> {DQ, BS, LF, CR, CHR 0x09, CHR 0x08, CHR 0x0C}" "\<not> printable c"
    by blast
  then show ?thesis
  proof cases
    case named
    then have "set (escape_char c) \<subseteq> {BS, DQ, CHR ''n'', CHR ''r'', CHR ''t'', CHR ''b'', CHR ''f''}"
      by (auto simp: escape_char_def)
    with d show ?thesis using printable_lits by auto
  next
    case plain
    then have "escape_char c = [c]" by (auto simp: escape_char_def printable_def)
    with d plain show ?thesis by simp
  next
    case other
    then have "escape_char c = [BS, CHR ''u'', CHR ''0'', CHR ''0'', hex_digit (of_char c div 16), hex_digit (of_char c)]"
      by (auto simp: escape_char_def Let_def printable_def)
    with d show ?thesis using printable_lits hex_digit_printable by auto
  qed
qed

lemma json_string_printable: "d \<in> set (json_string s) \<Longrightarrow> printable d"
  using escape_char_printable printable_lits by (auto simp: json_string_def)

lemma show_int_printable: "d \<in> set (show_int i) \<Longrightarrow> printable d"
proof -
  assume "d \<in> set (show_int i)"
  then have "d = CHR ''-'' \<or> is_digit d"
    using show_nat_digits by (auto simp: show_int_def split: if_splits)
  then show ?thesis using printable_lits by (auto simp: is_digit_def printable_def)
qed

lemma json_dumps_printable:
  "\<forall>d\<in>set (json_dumps v). printable d"
  "\<forall>d\<in>set (dumps_items xs). printable d"
  "\<forall>d\<in>set (dumps_members kvs). printable d"
proof (induction v and xs and kvs rule: json_dumps_dumps_items_dumps_members.induct)
  case 1
  show ?case by (simp add: printable_def)
next
  case (2 b)
  show ?case by (simp add: printable_def)
next
  case (3 i)
  show ?case using show_int_printable by simp
next
  case (4 s)
  show ?case using json_string_printable by simp
next
  case (5 xs)
  then show ?case using printable_lits by simp
next
  case (6 kvs)
  then show ?case using printable_lits by simp
next
  case 7
  show ?case by simp
next
  case (8 x)
  then show ?case by simp
next
  case (9 x y ys)
  then show ?case using printable_lits by (simp add: ball_Un)
next
  case 10
  show ?case by simp
next
  case (11 k v)
  then show ?case using json_string_printable [of _ k] printable_lits
    by (simp add: ball_Un)
next
  case (12 k v kv kvs)
  then show ?case using json_string_printable [of _ k] printable_lits
    by (simp add: ball_Un)
qed

lemma strip_id:
  assumes "s \<noteq> []" "\<not> is_space (hd s)" "\<not> is_space (last s)"
  shows "strip s = s"
proof -
  from assms have "dropWhile is_space s = s" by (cases s) auto
  moreover from assms have "dropWhile is_space (rev s) = rev s"
    by (cases "rev s") (auto simp: hd_rev)
  ultimately show ?thesis by (simp add: strip_def)
qed

lemma json_dumps_last: "json_dumps v \<noteq> [] \<and> last (json_dumps v) \<noteq> CHR '' ''"
proof (cases v)
  case (PyInt i)
  have "show_int i \<noteq> []" using show_int_head [of i] by auto
  moreover have "last (show_int i) \<noteq> CHR '' ''"
  proof -
    have "last (show_int i) = last (show_nat (nat (if i < 0 then - i else i)))"
      using show_nat_nonempty by (simp add: show_int_def)
    moreover have "is_digit (last (show_nat (nat (if i < 0 then - i else i))))"
      using show_nat_digits show_nat_nonempty last_in_set by blast
    ultimately show ?thesis by (auto simp: is_digit_def)
  qed
  ultimately show ?thesis using PyInt by simp
qed (auto simp: json_string_def)

lemma printable_space: "printable c \<Longrightarrow> is_space c \<Longrightarrow> c = CHR '' ''"
proof -
  assume "printable c" "is_space c"
  then have "(of_char c :: nat) = 32" by (auto simp: printable_def is_space_def Let_def)
  then have "(of_char c :: nat) = of_char (CHR '' '')" by simp
  then show ?thesis by (simp only: of_char_eq_iff)
qed

lemma strip_json_dumps: "strip (json_dumps v) = json_dumps v"
proof -
  from json_dumps_head [of v] obtain c cs where h: "json_dumps v = c # cs" "\<not> json_ws c" by blast
  from h have "c \<noteq> CHR '' ''" by (auto simp: json_ws_def)
  moreover have "printable c" using json_dumps_printable(1) [of v] h by simp
  ultimately have a: "\<not> is_space (hd (json_dumps v))" using h printable_space by auto
  from json_dumps_last [of v] have ne: "json_dumps v \<noteq> []" and l: "last (json_dumps v) \<noteq> CHR '' ''"
    by simp_all
  from ne have "printable (last (json_dumps v))" using json_dumps_printable(1) last_in_set by blast
  with l have b: "\<not> is_space (last (json_dumps v))" using printable_space by blast
  from ne a b show ?thesis by (rule strip_id)
qed

lemma json_loads_dumps:
  "fits digs limit v \<Longrightarrow> json_loads limit digs (json_dumps v) = Some (Parsed v)"
proof -
  assume f: "fits digs limit v"
  have "parse_value digs (2 * length (json_dumps v) + 2) limit (json_dumps v @ [])
      = Scanned (Some v) []"
    using f by (intro parse_roundtrip(1)) (simp_all add: num_end_punct)
  moreover have "skip_ws (json_dumps v) = json_dumps v"
    using skip_ws_dumps [of v "[]"] by simp
  moreover have "skip_ws [] = []" by (simp add: skip_ws_def)
  ultimately show ?thesis by (simp add: json_loads_def del: parse_value.simps)
qed

text \<open>Brackets opened deeper than the limit end the scan with \<^verbatim>\<open>RecursionError\<close>.\<close>

lemma deep_brackets:
  "depth < k \<Longrightarrow> 2 * depth < n \<Longrightarrow>
   parse_value digs n depth (replicate k (CHR ''['')) = Overflow"
proof (induction depth arbitrary: k n)
  case 0
  then obtain m j where "n = Suc m" "k = Suc j" by (cases n; cases k) auto
  then show ?case by simp
next
  case (Suc depth)
  from Suc.prems obtain m j where n: "n = Suc (Suc m)" and k: "k = Suc (Suc j)"
    by (cases n; cases k) (auto, metis Suc_lessE less_Suc_eq_0_disj not_less_eq)
  have sk: "skip_ws (replicate (Suc j) (CHR ''['')) = CHR ''['' # replicate j (CHR ''['')"
    by (simp add: skip_ws_def json_ws_def)
  have "parse_value digs m depth (replicate (Suc j) (CHR ''['')) = Overflow"
    using Suc.prems n k by (intro Suc.IH) simp_all
  then have "parse_items digs (Suc m) depth (CHR ''['' # replicate j (CHR ''['')) = Overflow"
    by simp
  with n k sk show ?case by (simp add: scan_map_def)
qed

lemma json_loads_deep:
  "limit < k \<Longrightarrow> json_loads limit digs (replicate k (CHR ''['')) = Some OtherException"
proof -
  assume "limit < k"
  moreover have "skip_ws (replicate k (CHR ''['')) = replicate k (CHR ''['')"
    by (cases k) (simp_all add: skip_ws_def json_ws_def)
  ultimately show ?thesis
    using deep_brackets [of limit k "2 * k + 2" digs] by (simp add: json_loads_def)
qed

lemma json_loads_json: "json_loads 1000 4300 s = Some r \<Longrightarrow> loads json s = r"
  by (simp add: json_def)

lemma json_roundtrips: "fits 4300 1000 v \<Longrightarrow> roundtrips json v"
proof -
  assume f: "fits 4300 1000 v"
  have "\<not> printable LF" "\<not> printable CR" by (simp_all add: printable_def)
  with json_dumps_printable(1) [of v] have "LF \<notin> set (json_dumps v)" "CR \<notin> set (json_dumps v)"
    by blast+
  moreover have "json_dumps v \<noteq> []" using json_dumps_last by simp
  moreover have "loads json (json_dumps v) = Parsed v"
    using json_loads_dumps [OF f] by (rule json_loads_json)
  moreover have "dumps json v = json_dumps v" by (simp add: json_def)
  ultimately show ?thesis by (simp add: roundtrips_def strip_json_dumps)
qed

lemma deep_line_raises: "loads json deep_line = OtherException"
  unfolding deep_line_def by (rule json_loads_json) (simp add: json_loads_deep)

section \<open>First in, first out\<close>

text \<open>
  Claim C2. Records appended to an empty or absent queue file, each of which the codec
  writes on one line and reads back, come out of as many calls of
  \<^verbatim>\<open>_read_from_file\<close> in the order they were appended, and the file is left without
  lines.
\<close>

theorem fifo_order:
  assumes "\<forall>r\<in>set rs. roundtrips c r \<and> r \<noteq> PyNone"
    and "content fs = None \<or> content fs = Some []" and "\<not> denied fs"
  shows "\<exists>fs1. appends c rs fs = Inr fs1 \<and>
           fst (pops c (length rs) fs1) = rs \<and>
           lines_of (snd (pops c (length rs) fs1)) = []"
proof (cases "rs = [] \<and> content fs = None")
  case True
  then show ?thesis by (simp add: lines_of_def)
next
  case False
  have "appends c rs fs = Inr (fs\<lparr>content := Some (file_text c rs)\<rparr>)"
  proof (cases "content fs")
    case None
    with False assms(3) show ?thesis by (intro appends_None) simp_all
  next
    case (Some tx)
    with assms(2) have "tx = []" by simp
    with appends_Some [OF assms(3) Some, of c rs] show ?thesis by simp
  qed
  moreover have "pops c (length rs) (fs\<lparr>content := Some (file_text c rs)\<rparr>)
      = (rs, fs\<lparr>content := Some (file_text c rs), content := Some []\<rparr>)"
    using assms(1,3) by (intro pops_file_text) simp_all
  ultimately show ?thesis by simp
qed

theorem fifo_order_witness:
  "roundtrips json view_event \<and> view_event \<noteq> PyNone \<and>
   roundtrips json click_event \<and> click_event \<noteq> PyNone \<and>
   (content absent = None \<or> content absent = Some []) \<and> \<not> denied absent \<and>
   (\<exists>fs1. appends json [view_event, click_event] absent = Inr fs1 \<and>
      fst (pops json (length [view_event, click_event]) fs1) = [view_event, click_event] \<and>
      lines_of (snd (pops json (length [view_event, click_event]) fs1)) = [])"
proof -
  have h1: "\<forall>r\<in>set [view_event, click_event]. roundtrips json r \<and> r \<noteq> PyNone"
    by code_simp
  have h2: "content absent = None \<or> content absent = Some []" by (simp add: absent_def)
  have h3: "\<not> denied absent" by (simp add: absent_def)
  from fifo_order [OF h1 h2 h3] h1 h2 h3 show ?thesis by simp
qed

section \<open>Removal of the head\<close>



section \<open>A malformed first line\<close>

lemma read_from_file_other:
  assumes "content fs = Some tx" "\<not> denied fs" "readlines tx = l # ls"
    and "strip l \<noteq> []" "loads c (strip l) = OtherException"
  shows "read_from_file c fs = (PyNone, fs)"
  using assms by (simp add: read_from_file_def)

lemma pops_unchanged: "read_from_file c fs = (PyNone, fs) \<Longrightarrow> pops c n fs = (replicate n PyNone, fs)"
  by (induction n) simp_all

lemma deep_line_plain:
  "LF \<notin> set deep_line" "CR \<notin> set deep_line" "deep_line \<noteq> []" "strip deep_line = deep_line"
proof -
  show "LF \<notin> set deep_line" "CR \<notin> set deep_line" "deep_line \<noteq> []"
    by (simp_all add: deep_line_def)
  have "hd deep_line = CHR ''[''" "last deep_line = CHR ''[''" by (simp_all add: deep_line_def)
  moreover have "\<not> is_space (CHR ''['')" by (simp add: is_space_def)
  ultimately show "strip deep_line = deep_line"
    using \<open>deep_line \<noteq> []\<close> by (intro strip_id) simp_all
qed

lemma malformed_deep_line: "malformed json deep_line"
  by (simp add: malformed_def deep_line_plain deep_line_raises)

lemma roundtrips_view_click: "roundtrips json view_event" "roundtrips json click_event"
  by (rule json_roundtrips, simp add: view_event_def click_event_def show_nat.simps)+

text \<open>
  Claim C4, on the code. The first line of the file \<open>stuck\<close> is malformed: it is not blank
  and \<^verbatim>\<open>json.loads\<close> raises \<^verbatim>\<open>RecursionError\<close> on it; the two valid records follow.
  The exception is not a \<^verbatim>\<open>JSONDecodeError\<close>, so \<^verbatim>\<open>_read_from_file\<close> ends in its last
  handler: it returns \<^verbatim>\<open>None\<close> and the file still has its three lines, after one call
  and after any number of calls.
\<close>

theorem malformed_first_line_stays:
  "malformed json deep_line \<and>
   roundtrips json view_event \<and> roundtrips json click_event \<and>
   read_from_file json stuck = (PyNone, stuck) \<and>
   lines_of (snd (read_from_file json stuck))
     = [deep_line @ [LF], dumps json view_event @ [LF], dumps json click_event @ [LF]] \<and>
   pops json n stuck = (replicate n PyNone, stuck)"
proof -
  have rts: "\<forall>r\<in>set [view_event, click_event]. roundtrips json r"
    using roundtrips_view_click by simp
  have ls: "readlines (deep_line @ LF # file_text json [view_event, click_event])
      = (deep_line @ [LF]) # readlines (file_text json [view_event, click_event])"
    using deep_line_plain(1,2) by (rule readlines_line)
  have r: "read_from_file json stuck = (PyNone, stuck)"
    using ls deep_line_plain deep_line_raises
    by (intro read_from_file_other [where l = "deep_line @ [LF]"])
       (simp_all add: stuck_def strip_line)
  have "lines_of stuck
      = [deep_line @ [LF], dumps json view_event @ [LF], dumps json click_event @ [LF]]"
    using ls readlines_file_text [OF rts] by (simp add: lines_of_def stuck_def)
  with r pops_unchanged [OF r] malformed_deep_line roundtrips_view_click show ?thesis by simp
qed

text \<open>
  X1. A first line that is not blank and on which \<^verbatim>\<open>json.loads\<close> raises
  \<^verbatim>\<open>JSONDecodeError\<close>, followed by two valid records: one call of
  \<^verbatim>\<open>_read_from_file\<close> returns \<^verbatim>\<open>None\<close> and leaves a file that holds exactly the two
  records.
\<close>

theorem crash_line_tolerance:
  assumes "LF \<notin> set bad" "CR \<notin> set bad" "strip bad \<noteq> []"
    and "loads c (strip bad) = JSONDecodeError"
    and "roundtrips c r1" "roundtrips c r2" and "\<not> denied fs"
    and "content fs = Some (bad @ [LF] @ file_text c [r1, r2])"
  shows "read_from_file c fs = (PyNone, fs\<lparr>content := Some (file_text c [r1, r2])\<rparr>) \<and>
         lines_of (snd (read_from_file c fs)) = [dumps c r1 @ [LF], dumps c r2 @ [LF]]"
proof -
  from assms(5,6) have rts: "\<forall>r\<in>set [r1, r2]. roundtrips c r" by simp
  have "read_from_file c fs = (PyNone, fs\<lparr>content := Some (file_text c [r1, r2])\<rparr>)"
    using assms file_text_no_CR [OF rts] by (intro read_bad_line [where bad = bad]) simp_all
  with readlines_file_text [OF rts] show ?thesis by simp
qed

theorem crash_line_tolerance_witness:
  "LF \<notin> set truncated_line \<and> CR \<notin> set truncated_line \<and> strip truncated_line \<noteq> [] \<and>
   loads json (strip truncated_line) = JSONDecodeError \<and>
   roundtrips json view_event \<and> roundtrips json click_event \<and> \<not> denied crashed \<and>
   content crashed = Some (truncated_line @ [LF] @ file_text json [view_event, click_event]) \<and>
   read_from_file json crashed
     = (PyNone, crashed\<lparr>content := Some (file_text json [view_event, click_event])\<rparr>) \<and>
   lines_of (snd (read_from_file json crashed))
     = [dumps json view_event @ [LF], dumps json click_event @ [LF]]"
proof -
  have h1: "LF \<notin> set truncated_line" by code_simp
  have h2: "CR \<notin> set truncated_line" by code_simp
  have h3: "strip truncated_line \<noteq> []" by code_simp
  have h4: "loads json (strip truncated_line) = JSONDecodeError" by code_simp
  have h5: "roundtrips json view_event" by code_simp
  have h6: "roundtrips json click_event" by code_simp
  have h7: "\<not> denied crashed" by (simp add: crashed_def)
  have h8: "content crashed = Some (truncated_line @ [LF] @ file_text json [view_event, click_event])"
    by (simp add: crashed_def)
  from crash_line_tolerance [OF h1 h2 h3 h4 h5 h6 h7 h8] h1 h2 h3 h4 h5 h6 h7 h8
  show ?thesis by blast
qed

section \<open>A blank first line\<close>

text \<open>
  Claim C5. When the first line of the file is blank, \<^verbatim>\<open>_read_from_file\<close> returns
  \<^verbatim>\<open>None\<close> and leaves the file as it is, and so does every further call: the lines
  after the blank one are never reached.
\<close>

theorem blank_first_line_blocks:
  assumes "lines_of fs \<noteq> []" and "strip (hd (lines_of fs)) = []"
  shows "read_from_file c fs = (PyNone, fs) \<and> pops c n fs = (replicate n PyNone, fs)"
proof -
  from assms have r: "read_from_file c fs = (PyNone, fs)"
    by (auto simp: read_from_file_def lines_of_def split: option.splits)
  have "pops c n fs = (replicate n PyNone, fs)"
    by (induction n) (simp_all add: r)
  with r show ?thesis by simp
qed

theorem blank_first_line_blocks_witness:
  "lines_of blank_first \<noteq> [] \<and> strip (hd (lines_of blank_first)) = [] \<and>
   read_from_file json blank_first = (PyNone, blank_first) \<and>
   pops json 3 blank_first = (replicate 3 PyNone, blank_first)"
proof -
  have h1: "lines_of blank_first \<noteq> []" by code_simp
  have h2: "strip (hd (lines_of blank_first)) = []" by code_simp
  from blank_first_line_blocks [OF h1 h2, of json 3] h1 h2 show ?thesis by blast
qed

section \<open>A missing file\<close>

text \<open>
  Claim C8. When the queue file does not exist, \<^verbatim>\<open>_read_from_file\<close> returns
  \<^verbatim>\<open>None\<close> and \<^verbatim>\<open>_count_file_lines\<close> returns 0; both are plain results, not
  exceptions.
\<close>

theorem missing_file_is_empty:
  "read_from_file c (fs\<lparr>content := None\<rparr>) = (PyNone, fs\<lparr>content := None\<rparr>) \<and>
   count_file_lines (fs\<lparr>content := None\<rparr>) = 0"
  by (simp add: read_from_file_def count_file_lines_def)

theorem missing_file_is_empty_witness:
  "read_from_file json (absent\<lparr>content := None\<rparr>) = (PyNone, absent\<lparr>content := None\<rparr>) \<and>
   count_file_lines (absent\<lparr>content := None\<rparr>) = 0"
  using missing_file_is_empty [of json absent] by simp

section \<open>The concrete scenario\<close>

text \<open>
  Claim C9. From an empty or absent file, the view record and then the click record are
  appended. The first read returns the view record and the count is 1; the second
  returns the click record and the count is 0; the third returns \<^verbatim>\<open>None\<close>. The count
  is the number of lines that are not blank.
\<close>

theorem concrete_scenario:
  assumes "roundtrips c view_event" "roundtrips c click_event"
    and "content fs = None \<or> content fs = Some []" and "\<not> denied fs"
  shows "\<exists>fs1 fs2 fs3.
           appends c [view_event, click_event] fs = Inr fs1 \<and>
           read_from_file c fs1 = (view_event, fs2) \<and> count_file_lines fs2 = 1 \<and>
           read_from_file c fs2 = (click_event, fs3) \<and> count_file_lines fs3 = 0 \<and>
           read_from_file c fs3 = (PyNone, fs3) \<and>
           count_file_lines fs2 = length (filter (\<lambda>line. strip line \<noteq> []) (lines_of fs2))"
proof -
  let ?f = "\<lambda>rs. fs\<lparr>content := Some (file_text c rs)\<rparr>"
  have a: "appends c [view_event, click_event] fs = Inr (?f [view_event, click_event])"
  proof (cases "content fs")
    case None
    with assms(4) show ?thesis by (intro appends_None) simp_all
  next
    case (Some tx)
    with assms(3) have "tx = []" by simp
    with appends_Some [OF assms(4) Some, of c "[view_event, click_event]"] show ?thesis by simp
  qed
  have r1: "read_from_file c (?f [view_event, click_event]) = (view_event, ?f [click_event])"
    using read_file_text [of view_event "[click_event]" c "?f [view_event, click_event]"] assms
    by simp
  have c1: "count_file_lines (?f [click_event]) = 1"
    using count_file_text [of "[click_event]" c "?f [click_event]"] assms by simp
  have r2: "read_from_file c (?f [click_event]) = (click_event, ?f [])"
    using read_file_text [of click_event "[]" c "?f [click_event]"] assms by simp
  have c2: "count_file_lines (?f []) = 0"
    using count_file_text [of "[]" c "?f []"] assms by simp
  have r3: "read_from_file c (?f []) = (PyNone, ?f [])"
    using assms(4) by (simp add: read_from_file_def file_text_def)
  have c3: "count_file_lines (?f [click_event])
      = length (filter (\<lambda>line. strip line \<noteq> []) (lines_of (?f [click_event])))"
    using assms(4) by (simp add: count_file_lines_def)
  from a r1 c1 r2 c2 r3 c3 show ?thesis by blast
qed

theorem concrete_scenario_witness:
  "roundtrips json view_event \<and> roundtrips json click_event \<and>
   (content absent = None \<or> content absent = Some []) \<and> \<not> denied absent \<and>
   (\<exists>fs1 fs2 fs3.
      appends json [view_event, click_event] absent = Inr fs1 \<and>
      read_from_file json fs1 = (view_event, fs2) \<and> count_file_lines fs2 = 1 \<and>
      read_from_file json fs2 = (click_event, fs3) \<and> count_file_lines fs3 = 0 \<and>
      read_from_file json fs3 = (PyNone, fs3) \<and>
      count_file_lines fs2 = length (filter (\<lambda>line. strip line \<noteq> []) (lines_of fs2)))"
proof -
  have h1: "roundtrips json view_event" by code_simp
  have h2: "roundtrips json click_event" by code_simp
  have h3: "content absent = None \<or> content absent = Some []" by (simp add: absent_def)
  have h4: "\<not> denied absent" by (simp add: absent_def)
  from concrete_scenario [OF h1 h2 h3 h4] h1 h2 h3 h4 show ?thesis by blast
qed

section \<open>Timeout and empty queue\<close>

lemma read_no_lines: "lines_of fs = [] \<Longrightarrow> read_from_file c fs = (PyNone, fs)"
  by (auto simp: read_from_file_def lines_of_def split: option.splits)

lemma poll_nonblocking:
  "lines_of fs = [] \<Longrightarrow> poll c (Suc n) False timeout start (fs, clock) = Some (Raise Empty, fs, clock)"
  by (simp add: read_no_lines)

lemma poll_timeout:
  "lines_of fs = [] \<Longrightarrow> T - (clock - start) \<le> 100 * int n \<Longrightarrow>
   poll c (Suc n + k) True (Some T) start (fs, clock)
     = Some (Raise Empty, fs, clock + 100 * int (nat ((T - (clock - start) + 99) div 100)))"
proof (induction n arbitrary: clock)
  case 0
  then have "nat ((T - (clock - start) + 99) div 100) = 0" by simp
  with 0 show ?case by (simp add: read_no_lines)
next
  case (Suc n)
  show ?case
  proof (cases "clock - start \<ge> T")
    case True
    then have "nat ((T - (clock - start) + 99) div 100) = 0" by simp
    with True Suc.prems(1) show ?thesis by (simp add: read_no_lines)
  next
    case False
    from Suc.prems(2) have "T - (clock + 100 - start) \<le> 100 * int n" by simp
    from Suc.IH [OF Suc.prems(1) this]
    have "poll c (Suc n + k) True (Some T) start (fs, clock + 100)
      = Some (Raise Empty, fs, clock + 100 + 100 * int (nat ((T - (clock + 100 - start) + 99) div 100)))" .
    moreover have "100 + 100 * int (nat ((T - (clock + 100 - start) + 99) div 100))
        = 100 * int (nat ((T - (clock - start) + 99) div 100))"
    proof -
      define d where "d = T - (clock - start)"
      from False have pos: "0 < d" by (simp add: d_def)
      have "(d - 1 + 100) div 100 = (d - 1) div 100 + 1" by simp
      then have e: "(d + 99) div 100 = (d - 1) div 100 + 1" by (simp add: algebra_simps)
      from pos have n: "0 \<le> (d - 1) div 100" by simp
      have a: "T - (clock + 100 - start) + 99 = d - 1" and b: "T - (clock - start) + 99 = d + 99"
        by (simp_all add: d_def)
      show ?thesis unfolding a b e using n by simp
    qed
    ultimately show ?thesis using False Suc.prems(1) by (simp add: read_no_lines)
  qed
qed

lemma timeout_rounds: "T \<le> 100 * int (nat ((T + 99) div 100))"
proof (cases "T \<le> 0")
  case True
  then show ?thesis by simp
next
  case False
  have "T + 99 = 100 * ((T + 99) div 100) + (T + 99) mod 100" by simp
  moreover have "(T + 99) mod 100 \<le> 99" by simp
  ultimately have "T \<le> 100 * ((T + 99) div 100)" by linarith
  moreover from False have "0 \<le> (T + 99) div 100" by simp
  ultimately show ?thesis by simp
qed

text \<open>
  Claim C1, as the code has it. On the consumer side, a blocking \<^verbatim>\<open>get\<close> whose timeout
  runs out on a queue file without lines raises \<^verbatim>\<open>queue.Empty\<close>, and so does a
  non-blocking \<^verbatim>\<open>get\<close> on the same file: the two calls end in the same exception.
  The blocking call returns after one round more than the timeout has periods of 100
  milliseconds, rounded up.
\<close>

theorem timeout_raises_empty:
  assumes "use_file_directly self" and "lines_of fs = []"
  shows "get c (Suc (nat ((T + 99) div 100)) + k) True (Some T) (self, fs, clock)
           = Some (Raise Empty, self, fs, clock + 100 * int (nat ((T + 99) div 100))) \<and>
         get c (Suc k) False timeout (self, fs, clock) = Some (Raise Empty, self, fs, clock)"
proof -
  have "T - (clock - clock) \<le> 100 * int (nat ((T + 99) div 100))"
    using timeout_rounds [of T] by simp
  from poll_timeout [OF assms(2) this, of c k]
  have "poll c (Suc (nat ((T + 99) div 100)) + k) True (Some T) clock (fs, clock)
      = Some (Raise Empty, fs, clock + 100 * int (nat ((T + 99) div 100)))" by simp
  moreover have "poll c (Suc k) False timeout clock (fs, clock) = Some (Raise Empty, fs, clock)"
    using assms(2) by (rule poll_nonblocking)
  ultimately show ?thesis using assms(1) by (simp add: get_def del: poll.simps)
qed

theorem timeout_raises_empty_witness:
  "use_file_directly consumer \<and> lines_of absent = [] \<and>
   get json (Suc (nat ((250 + 99) div 100)) + 0) True (Some 250) (consumer, absent, 0)
     = Some (Raise Empty, consumer, absent, 0 + 100 * int (nat ((250 + 99) div 100))) \<and>
   get json (Suc 0) False None (consumer, absent, 0) = Some (Raise Empty, consumer, absent, 0)"
proof -
  have h1: "use_file_directly consumer" by (simp add: consumer_def)
  have h2: "lines_of absent = []" by (simp add: lines_of_def absent_def)
  from timeout_raises_empty [OF h1 h2, of json 250 0 0 None] h1 h2 show ?thesis by blast
qed

text \<open>
  Claim C1, as the specification states it, asks for a timeout signal that differs from
  the signal of an empty queue. At the absent file, the blocking call with a timeout of
  100 milliseconds and the non-blocking call both end in \<^verbatim>\<open>queue.Empty\<close>.
\<close>

theorem timeout_signal_counterexample:
  "map_option fst (get json 2 True (Some 100) (consumer, absent, 0)) = Some (Raise Empty) \<and>
   map_option fst (get json 1 False None (consumer, absent, 0)) = Some (Raise Empty) \<and>
   map_option fst (get json 2 True (Some 100) (consumer, absent, 0))
     = map_option fst (get json 1 False None (consumer, absent, 0))"
  by code_simp

section \<open>A failed append\<close>

text \<open>
  Claim C6. On the producer side \<^verbatim>\<open>put\<close> pushes the record onto the in-memory queue
  and then appends it to the file. When the append fails, \<^verbatim>\<open>put\<close> raises
  \<^verbatim>\<open>RuntimeError\<close> and the file is as before, yet the in-memory queue holds the
  record. When the append succeeds, \<^verbatim>\<open>put\<close> returns, the queue holds the record, and
  the file is its old text followed by the line of the record.
\<close>

theorem put_failure_keeps_push:
  assumes "\<not> use_file_directly self"
  shows "append_to_file c item fs
           = (if denied fs then Inl RuntimeError
              else Inr (fs\<lparr>content := Some ((case content fs of None \<Rightarrow> [] | Some old \<Rightarrow> old)
                                               @ dumps c item @ [LF])\<rparr>)) \<and>
         put c item (self, fs)
           = (if denied fs
              then (Raise RuntimeError,
                    self\<lparr>in_memory_queue := in_memory_queue self @ [item]\<rparr>, fs)
              else (Return (),
                    self\<lparr>in_memory_queue := in_memory_queue self @ [item]\<rparr>,
                    fs\<lparr>content := Some ((case content fs of None \<Rightarrow> [] | Some old \<Rightarrow> old)
                                          @ dumps c item @ [LF])\<rparr>))"
  using assms by (simp add: put_def append_to_file_def)

theorem put_failure_keeps_push_witness:
  "\<not> use_file_directly producer \<and> denied unwritable \<and> \<not> denied two_lines \<and>
   put json view_event (producer, unwritable)
     = (Raise RuntimeError, producer\<lparr>in_memory_queue := [view_event]\<rparr>, unwritable) \<and>
   put json view_event (producer, two_lines)
     = (Return (), producer\<lparr>in_memory_queue := [view_event]\<rparr>,
        two_lines\<lparr>content := Some (file_text json [view_event, click_event, view_event])\<rparr>)"
proof -
  have h: "\<not> use_file_directly producer" by (simp add: producer_def)
  have d: "denied unwritable" by (simp add: unwritable_def)
  have e: "\<not> denied two_lines" by (simp add: two_lines_def)
  have q: "in_memory_queue producer = []" by (simp add: producer_def)
  have c: "content two_lines = Some (file_text json [view_event, click_event])"
    by (simp add: two_lines_def file_text_def json_def)
  have a: "put json view_event (producer, unwritable)
      = (Raise RuntimeError, producer\<lparr>in_memory_queue := [view_event]\<rparr>, unwritable)"
    using put_failure_keeps_push [OF h, of json view_event unwritable] d q by simp
  have b: "put json view_event (producer, two_lines)
      = (Return (), producer\<lparr>in_memory_queue := [view_event]\<rparr>,
         two_lines\<lparr>content := Some (file_text json [view_event, click_event, view_event])\<rparr>)"
    using put_failure_keeps_push [OF h, of json view_event two_lines] e q c
    by (simp add: file_text_def)
  from h d e a b show ?thesis by blast
qed

section \<open>Replay of the file into the buffer\<close>

lemma render_simps:
  "render c (Inl bad) = bad @ [LF]" "render c (Inr r) = dumps c r @ [LF]"
  by (simp_all add: render_def)

lemma readlines_rendered:
  "list_all (valid_entry c) es \<Longrightarrow> readlines (concat (map (render c) es)) = map (render c) es"
proof (induction es)
  case Nil
  show ?case by simp
next
  case (Cons e es)
  obtain l where l: "render c e = l @ [LF]" "LF \<notin> set l" "CR \<notin> set l"
    using Cons.prems
    by (cases e) (auto simp: render_def valid_entry_def passed_over_def roundtrips_def)
  then have "readlines (l @ LF # concat (map (render c) es))
      = (l @ [LF]) # readlines (concat (map (render c) es))"
    by (intro readlines_line)
  with l Cons show ?case by simp
qed

lemma load_lines_rendered:
  "list_all (valid_entry c) es \<Longrightarrow> load_lines c q (map (render c) es) = q @ records_of es"
proof (induction es arbitrary: q)
  case Nil
  show ?case by simp
next
  case (Cons e es)
  from Cons.prems have es: "list_all (valid_entry c) es" by simp
  show ?case
  proof (cases e)
    case (Inl bad)
    with Cons.prems have "strip bad = [] \<or> loads c (strip bad) = JSONDecodeError"
      by (simp add: valid_entry_def passed_over_def)
    with Inl Cons.IH [OF es] show ?thesis
      by (auto simp: render_simps strip_line Let_def)
  next
    case (Inr r)
    with Cons.prems have "strip (dumps c r) \<noteq> []" "loads c (strip (dumps c r)) = Parsed r"
      by (simp_all add: valid_entry_def roundtrips_def)
    with Inr Cons.IH [OF es] show ?thesis
      by (simp add: render_simps strip_line Let_def)
  qed
qed

lemma length_records_of: "length (records_of es) + length (filter isl es) = length es"
  by (induction es rule: records_of.induct) simp_all

lemma load_lines_other:
  "strip l \<noteq> [] \<Longrightarrow> loads c (strip l) = OtherException \<Longrightarrow> load_lines c q (l # ls) = q"
  by simp

lemma load_lines_record:
  "roundtrips c r \<Longrightarrow> load_lines c q ((dumps c r @ [LF]) # ls) = load_lines c (q @ [r]) ls"
  by (simp add: roundtrips_def strip_line)

text \<open>
  Claim C7, on the code. The file \<open>broken_file\<close> holds two valid records and, between
  them, one malformed line, on which \<^verbatim>\<open>json.loads\<close> raises \<^verbatim>\<open>RecursionError\<close>. The
  exception is not a \<^verbatim>\<open>JSONDecodeError\<close>, so it leaves the loop of
  \<^verbatim>\<open>_load_from_file\<close> and the outer handler swallows it: the queue that
  \<^verbatim>\<open>__init__\<close> builds holds the first record only.
\<close>

theorem replay_stops_at_malformed_line:
  "malformed json deep_line \<and>
   roundtrips json view_event \<and> roundtrips json click_event \<and>
   records_of broken_entries = [view_event, click_event] \<and>
   lines_of broken_file
     = [dumps json view_event @ [LF], deep_line @ [LF], dumps json click_event @ [LF]] \<and>
   in_memory_queue (init json False broken_file) = [view_event]"
proof -
  note rt = roundtrips_view_click
  have tx: "concat (map (render json) broken_entries)
      = dumps json view_event @ LF # deep_line @ LF # dumps json click_event @ LF # []"
    by (simp add: broken_entries_def render_simps)
  have ls: "readlines (concat (map (render json) broken_entries))
      = [dumps json view_event @ [LF], deep_line @ [LF], dumps json click_event @ [LF]]"
    unfolding tx using rt deep_line_plain(1,2)
    by (simp add: readlines_line roundtrips_def)
  have ll: "load_lines json []
        [dumps json view_event @ [LF], deep_line @ [LF], dumps json click_event @ [LF]]
      = [view_event]"
    using load_lines_record [OF rt(1), of "[]"] load_lines_other [of "deep_line @ [LF]" json]
      deep_line_plain deep_line_raises
    by (simp add: strip_line del: load_lines.simps)
  have "in_memory_queue (init json False broken_file) = [view_event]"
    by (simp add: init_def load_from_file_def broken_file_def ls ll del: load_lines.simps)
  moreover have "lines_of broken_file
      = [dumps json view_event @ [LF], deep_line @ [LF], dumps json click_event @ [LF]]"
    using ls by (simp add: lines_of_def broken_file_def)
  moreover have "records_of broken_entries = [view_event, click_event]"
    by (simp add: broken_entries_def)
  ultimately show ?thesis using malformed_deep_line rt by simp
qed

text \<open>
  X2. A producer-side queue built on a file whose lines are valid records, blank lines
  and lines on which \<^verbatim>\<open>json.loads\<close> raises \<^verbatim>\<open>JSONDecodeError\<close> holds exactly the valid
  records, in file order: its length and the number of the other lines add up to the
  number of lines.
\<close>

theorem buffer_replay:
  assumes "list_all (valid_entry c) entries" and "\<not> denied fs"
    and "content fs = Some (concat (map (render c) entries))"
  shows "in_memory_queue (init c False fs) = records_of entries \<and>
         length (in_memory_queue (init c False fs)) + length (filter isl entries)
           = length entries"
proof -
  from assms have "in_memory_queue (init c False fs) = records_of entries"
    by (simp add: init_def load_from_file_def readlines_rendered load_lines_rendered)
  with length_records_of [of entries] show ?thesis by simp
qed

theorem buffer_replay_witness:
  "list_all (valid_entry json) mixed_entries \<and> \<not> denied mixed_file \<and>
   content mixed_file = Some (concat (map (render json) mixed_entries)) \<and>
   in_memory_queue (init json False mixed_file) = records_of mixed_entries \<and>
   records_of mixed_entries = [view_event, click_event] \<and>
   length (in_memory_queue (init json False mixed_file)) + length (filter isl mixed_entries)
     = length mixed_entries"
proof -
  have h1: "list_all (valid_entry json) mixed_entries" by code_simp
  have h2: "\<not> denied mixed_file" by (simp add: mixed_file_def)
  have h3: "content mixed_file = Some (concat (map (render json) mixed_entries))"
    by (simp add: mixed_file_def)
  have h4: "records_of mixed_entries = [view_event, click_event]"
    by (simp add: mixed_entries_def)
  from buffer_replay [OF h1 h2 h3] h1 h2 h3 h4 show ?thesis by blast
qed

section \<open>Timestamps of accepted events\<close>

lemma validate_event_dict:
  "validate_event body = Inr (True, msg) \<Longrightarrow> \<exists>kvs. body = PyDict kvs"
  by (cases body) (auto simp: validate_event_def split: if_splits bool.splits)

text \<open>
  Claim C10. A request whose body passes \<^verbatim>\<open>validate_event\<close> has a dictionary as its
  body. The record that \<^verbatim>\<open>receive_event\<close> puts onto the queue is the body itself when
  it has a \<^verbatim>\<open>timestamp\<close> field, and otherwise the body with that field added at the
  end; either way the record has the field, and it is the record that arrives at the
  end of the in-memory queue.
\<close>

theorem accepted_event_has_timestamp:
  assumes "is_json req" and "get_json req = Some body"
    and "validate_event body = Inr (True, msg)" and "\<not> use_file_directly self"
  shows "\<exists>kvs event.
           body = PyDict kvs \<and>
           event = (if ''timestamp'' \<in> fst ` set kvs then body
                    else PyDict (kvs @ [(''timestamp'', PyStr (now @ ''Z''))])) \<and>
           py_in ''timestamp'' event = Inr True \<and>
           receive_event c now req (self, fs)
             = (case put c event (self, fs) of
                  (Return u, st') \<Rightarrow> (200, st') | (Raise e, st') \<Rightarrow> (500, st')) \<and>
           in_memory_queue (fst (snd (receive_event c now req (self, fs))))
             = in_memory_queue self @ [event]"
proof -
  from validate_event_dict [OF assms(3)] obtain kvs where b: "body = PyDict kvs" by blast
  define event where "event = (if ''timestamp'' \<in> fst ` set kvs then body
     else PyDict (kvs @ [(''timestamp'', PyStr (now @ ''Z''))]))"
  have ts: "py_in ''timestamp'' event = Inr True"
    by (simp add: event_def b)
  have r: "receive_event c now req (self, fs)
      = (case put c event (self, fs) of
           (Return u, st') \<Rightarrow> (200, st') | (Raise e, st') \<Rightarrow> (500, st'))"
    using assms(1,2,3) by (simp add: receive_event_def b event_def dict_set_absent)
  have q: "in_memory_queue (fst (snd (receive_event c now req (self, fs))))
      = in_memory_queue self @ [event]"
    unfolding r using assms(4) by (cases "append_to_file c event fs") (simp_all add: put_def)
  from b event_def ts r q show ?thesis by blast
qed

theorem accepted_event_has_timestamp_witness:
  "is_json view_request \<and> get_json view_request = Some view_event \<and>
   validate_event view_event = Inr (True, []) \<and> \<not> use_file_directly producer \<and>
   in_memory_queue (fst (snd
     (receive_event json ''2025-11-12T19:30:01'' view_request (producer, absent))))
     = [stamped_event] \<and>
   is_json stamped_request \<and> get_json stamped_request = Some stamped_event \<and>
   validate_event stamped_event = Inr (True, []) \<and>
   in_memory_queue (fst (snd
     (receive_event json ''2030-01-01T00:00:00'' stamped_request (producer, absent))))
     = [stamped_event]"
proof -
  have h1: "is_json view_request" and h2: "get_json view_request = Some view_event"
    by (simp_all add: view_request_def)
  have h3: "validate_event view_event = Inr (True, [])" by code_simp
  have h4: "\<not> use_file_directly producer" by (simp add: producer_def)
  have g1: "is_json stamped_request" and g2: "get_json stamped_request = Some stamped_event"
    by (simp_all add: stamped_request_def)
  have g3: "validate_event stamped_event = Inr (True, [])" by code_simp
  have q0: "in_memory_queue producer = []" by (simp add: producer_def)
  from accepted_event_has_timestamp
    [where c = json and now = "''2025-11-12T19:30:01''" and fs = absent, OF h1 h2 h3 h4]
  obtain kvs event where k: "view_event = PyDict kvs"
    and e: "event = (if ''timestamp'' \<in> fst ` set kvs then view_event
                     else PyDict (kvs @ [(''timestamp'', PyStr (''2025-11-12T19:30:01'' @ ''Z''))]))"
    and q: "in_memory_queue (fst (snd
              (receive_event json ''2025-11-12T19:30:01'' view_request (producer, absent))))
            = in_memory_queue producer @ [event]"
    by blast
  from k have "kvs = [(''site_id'', PyStr ''s1''), (''event_type'', PyStr ''view'')]"
    by (simp add: view_event_def)
  with e have "event = stamped_event" by (simp add: stamped_event_def)
  with q q0 have a: "in_memory_queue (fst (snd
     (receive_event json ''2025-11-12T19:30:01'' view_request (producer, absent))))
     = [stamped_event]" by simp
  from accepted_event_has_timestamp
    [where c = json and now = "''2030-01-01T00:00:00''" and fs = absent, OF g1 g2 g3 h4]
  obtain kvs' event' where k': "stamped_event = PyDict kvs'"
    and e': "event' = (if ''timestamp'' \<in> fst ` set kvs' then stamped_event
                     else PyDict (kvs' @ [(''timestamp'', PyStr (''2030-01-01T00:00:00'' @ ''Z''))]))"
    and q': "in_memory_queue (fst (snd
              (receive_event json ''2030-01-01T00:00:00'' stamped_request (producer, absent))))
            = in_memory_queue producer @ [event']"
    by blast
  from k' have "kvs' = [(''site_id'', PyStr ''s1''), (''event_type'', PyStr ''view''),
     (''timestamp'', PyStr ''2025-11-12T19:30:01Z'')]"
    by (simp add: stamped_event_def)
  with e' have "event' = stamped_event" by simp
  with q' q0 have b: "in_memory_queue (fst (snd
     (receive_event json ''2030-01-01T00:00:00'' stamped_request (producer, absent))))
     = [stamped_event]" by simp
  from h1 h2 h3 h4 g1 g2 g3 a b show ?thesis by blast
qed

end
